theory Spec2Isabelle
  imports
    Main
    "HOL-Library.AList"
    "HOL-Library.Multiset"
    "HOL-Library.Product_Lexorder"
    "HOL-Library.List_Lexorder"
begin

section \<open>Strings and annotated tokens\<close>

text \<open>
  A Python \<open>str\<close> is a sequence of Unicode code points: \<open>len\<close> counts code points and
  comparison is lexicographic on them. A string is therefore a list of code points
  (natural numbers); \<open>str\<close> turns an ASCII literal into that form.

  \<open>str.lower()\<close> is a builtin defined over all of Unicode; the functions that call it take
  it as the parameter \<open>lower\<close>, so that every theorem holds for whatever lowercasing the
  interpreter implements. \<open>ascii_lower\<close> is a concrete instance used on the examples.
\<close>

type_synonym str = "nat list"

definition str :: "string \<Rightarrow> str" where
  "str s = map of_char s"

definition ascii_lower :: "str \<Rightarrow> str" where
  "ascii_lower s = map (\<lambda>c. if 65 \<le> c \<and> c \<le> 90 then c + 32 else c) s"

text \<open>
  The attributes of a spaCy token that the notebooks read: \<open>token.text\<close>,
  \<open>token.lemma_\<close>, \<open>token.pos_\<close>, \<open>token.morph\<close>, \<open>token.is_stop\<close> and
  \<open>token.is_alpha\<close>. \<open>token.morph.get(name)\<close> returns the list of values of a feature,
  the empty list when the feature is absent.
\<close>

record token =
  tok_text :: str
  tok_lemma :: str
  tok_pos :: str
  tok_morph :: "(str \<times> str list) list"
  is_stop :: bool
  is_alpha :: bool

definition morph_get :: "token \<Rightarrow> str \<Rightarrow> str list" where
  "morph_get t name = (case map_of (tok_morph t) name of None \<Rightarrow> [] | Some vs \<Rightarrow> vs)"

text \<open>
  A spaCy \<open>Doc\<close>: iterating it yields its tokens, \<open>doc.noun_chunks\<close> yields its noun-phrase
  spans, each a sequence of tokens.
\<close>

record doc =
  tokens :: "token list"
  noun_chunks :: "token list list"

section \<open>Formality classifier (WIL\_demo\_TM, check\_formality\_type)\<close>

definition formal_pronouns :: "str list" where
  "formal_pronouns =
     [str ''vous'', [118, 244, 116, 114, 101], [118, 244, 116, 114, 101, 115],
      str ''votre'', str ''vos'']"

definition informal_pronouns :: "str list" where
  "informal_pronouns =
     [str ''tu'', str ''te'', [116, 39], str ''toi'', str ''tien'', str ''tienne'',
      str ''tiens'', str ''tiennes'', str ''ton'', str ''ta'', str ''tes'']"

text \<open>
  One iteration of the loop over the tokens of \<open>doc = nlp(text)\<close>; the state is the pair
  \<open>(plural_found, singular_found)\<close>. The pronoun test is an \<open>if\<close>/\<open>elif\<close>, the
  morphological test a separate \<open>if\<close> that runs on every token.
\<close>

definition formality_step :: "(str \<Rightarrow> str) \<Rightarrow> bool \<times> bool \<Rightarrow> token \<Rightarrow> bool \<times> bool" where
  "formality_step lower st t =
     (let (plural_found, singular_found) = st;
          text_lower = lower (tok_text t);
          (plural_found, singular_found) =
            (if text_lower \<in> set formal_pronouns then (True, singular_found)
             else if text_lower \<in> set informal_pronouns then (plural_found, True)
             else (plural_found, singular_found))
      in if tok_pos t \<in> set [str ''VERB'', str ''AUX'']
         then (let person = morph_get t (str ''Person'');
                   number = morph_get t (str ''Number'')
               in if person = [str ''2'']
                  then (if number = [str ''Plur''] then (True, singular_found)
                        else if number = [str ''Sing''] then (plural_found, True)
                        else (plural_found, singular_found))
                  else (plural_found, singular_found))
         else (plural_found, singular_found))"

text \<open>
  The classifier on the token sequence that the annotation engine returned for the text.
  It returns one of the Python strings \<open>'Formal'\<close>, \<open>'Informal'\<close>, \<open>'Not Applicable'\<close>.
\<close>

definition check_formality_type :: "(str \<Rightarrow> str) \<Rightarrow> token list \<Rightarrow> str" where
  "check_formality_type lower toks =
     (let (plural_found, singular_found) = foldl (formality_step lower) (False, False) toks
      in if plural_found \<and> singular_found then str ''Not Applicable''
         else if plural_found then str ''Formal''
         else if singular_found then str ''Informal''
         else str ''Not Applicable'')"

text \<open>
  The evidence rules in the words of the specification, to be compared with the loop.
\<close>

definition second_person_verb :: "token \<Rightarrow> str \<Rightarrow> bool" where
  "second_person_verb t num \<longleftrightarrow>
     (tok_pos t = str ''VERB'' \<or> tok_pos t = str ''AUX'') \<and>
     morph_get t (str ''Person'') = [str ''2''] \<and>
     morph_get t (str ''Number'') = [num]"

definition plural_evidence :: "(str \<Rightarrow> str) \<Rightarrow> token \<Rightarrow> bool" where
  "plural_evidence lower t \<longleftrightarrow>
     lower (tok_text t) \<in> set formal_pronouns \<or> second_person_verb t (str ''Plur'')"

definition singular_evidence :: "(str \<Rightarrow> str) \<Rightarrow> token \<Rightarrow> bool" where
  "singular_evidence lower t \<longleftrightarrow>
     lower (tok_text t) \<in> set informal_pronouns \<or> second_person_verb t (str ''Sing'')"

text \<open>Example tokens: "vous" as a pronoun, "es" as a second-person singular auxiliary.\<close>

definition tok_vous :: token where
  "tok_vous = \<lparr>tok_text = str ''Vous'', tok_lemma = str ''vous'', tok_pos = str ''PRON'',
     tok_morph = [(str ''Person'', [str ''2'']), (str ''Number'', [str ''Plur''])],
     is_stop = True, is_alpha = True\<rparr>"

definition tok_es :: token where
  "tok_es = \<lparr>tok_text = str ''es'', tok_lemma = str ''etre'', tok_pos = str ''AUX'',
     tok_morph = [(str ''Person'', [str ''2'']), (str ''Number'', [str ''Sing''])],
     is_stop = True, is_alpha = True\<rparr>"

subsection \<open>The loop computes the two evidence flags\<close>

lemma pronoun_sets_disjoint:
  "x \<in> set formal_pronouns \<Longrightarrow> x \<notin> set informal_pronouns"
  by (auto simp: formal_pronouns_def informal_pronouns_def str_def)

lemma formality_step_eq:
  "formality_step lower (p, s) t =
     (p \<or> plural_evidence lower t, s \<or> singular_evidence lower t)"
  using pronoun_sets_disjoint [of "lower (tok_text t)"]
  by (auto simp: formality_step_def plural_evidence_def singular_evidence_def
      second_person_verb_def Let_def str_def)

lemma formality_loop_eq:
  "foldl (formality_step lower) (p, s) toks =
     (p \<or> (\<exists>t \<in> set toks. plural_evidence lower t),
      s \<or> (\<exists>t \<in> set toks. singular_evidence lower t))"
proof (induction toks arbitrary: p s)
  case Nil
  show ?case by simp
next
  case (Cons t toks)
  show ?case
    by (simp only: foldl_Cons formality_step_eq Cons.IH) auto
qed

text \<open>
  C1. The classifier is a total function of the token sequence. Its result is always one
  of the three verdict strings: Formal when some token gives plural evidence and none gives
  singular evidence, Informal when some token gives singular evidence and none gives plural
  evidence, Not Applicable when both kinds or neither kind occur; the empty sequence gives
  Not Applicable. A token gives plural (singular) evidence exactly when its lowercased text
  is in the formal (informal) pronoun list or it is a VERB/AUX token whose Person is
  exactly ["2"] and whose Number is exactly ["Plur"] (["Sing"]).
\<close>

theorem check_formality_type_spec:
  "check_formality_type lower toks =
     (if (\<exists>t \<in> set toks. plural_evidence lower t)
      then (if (\<exists>t \<in> set toks. singular_evidence lower t)
            then str ''Not Applicable'' else str ''Formal'')
      else (if (\<exists>t \<in> set toks. singular_evidence lower t)
            then str ''Informal'' else str ''Not Applicable''))
   \<and> check_formality_type lower toks \<in> {str ''Formal'', str ''Informal'', str ''Not Applicable''}
   \<and> check_formality_type lower [] = str ''Not Applicable''"
  by (simp add: check_formality_type_def formality_loop_eq)

theorem check_formality_type_spec_witness:
  "check_formality_type ascii_lower [tok_vous] = str ''Formal''
   \<and> check_formality_type ascii_lower [tok_es] = str ''Informal''
   \<and> check_formality_type ascii_lower [tok_vous, tok_es] = str ''Not Applicable''"
proof -
  have pv: "plural_evidence ascii_lower tok_vous"
    by (simp add: plural_evidence_def tok_vous_def ascii_lower_def formal_pronouns_def str_def)
  have sv: "\<not> singular_evidence ascii_lower tok_vous"
    by (simp add: singular_evidence_def second_person_verb_def tok_vous_def ascii_lower_def
        informal_pronouns_def str_def)
  have se: "singular_evidence ascii_lower tok_es"
    by (simp add: singular_evidence_def second_person_verb_def morph_get_def tok_es_def str_def)
  have pe: "\<not> plural_evidence ascii_lower tok_es"
    by (simp add: plural_evidence_def second_person_verb_def morph_get_def tok_es_def
        ascii_lower_def formal_pronouns_def str_def)
  show ?thesis
    using check_formality_type_spec [of ascii_lower "[tok_vous]"]
      check_formality_type_spec [of ascii_lower "[tok_es]"]
      check_formality_type_spec [of ascii_lower "[tok_vous, tok_es]"]
      pv sv se pe
    by simp
qed

section \<open>Count tables (collections.Counter)\<close>

text \<open>
  A \<open>Counter\<close> is a dictionary: its keys are unique and it remembers the order in which
  they were first inserted, which \<open>items()\<close> and \<open>values()\<close> follow. It is modelled as an
  association list in insertion order. Reading a missing key gives 0 and does not insert
  it; \<open>c[k] += 1\<close> reads \<open>c[k]\<close> and stores the sum, keeping the place of an existing key
  and appending a new one.
\<close>

type_synonym counter = "(str \<times> int) list"

definition counter_get :: "counter \<Rightarrow> str \<Rightarrow> int" where
  "counter_get c k = (case map_of c k of None \<Rightarrow> 0 | Some v \<Rightarrow> v)"

definition counter_inc :: "str \<Rightarrow> counter \<Rightarrow> counter" where
  "counter_inc k c = AList.update k (counter_get c k + 1) c"

text \<open>
  The Count Table invariant of the data model: unique keys, every count at least 1.
\<close>

definition count_table :: "counter \<Rightarrow> bool" where
  "count_table c \<longleftrightarrow> distinct (map fst c) \<and> (\<forall>(k, v) \<in> set c. 1 \<le> v)"

section \<open>Frequency aggregation (WIL\_demo\_Terminology, FrequencyAnalyzer)\<close>

text \<open>
  The fields of \<open>TextPreprocessor\<close> that the analysis reads: the stop-word set and the
  chunk size. The annotation engine \<open>self.nlp\<close> is an external collaborator and is passed
  where it is called.
\<close>

record TextPreprocessor =
  stop_words :: "str set"
  chunk_size :: int

text \<open>
  The body of the loop of \<open>_process_doc_tokens\<close>; the three counters, which the source
  mutates in place, are passed and returned.
\<close>

definition process_token ::
  "(str \<Rightarrow> str) \<Rightarrow> TextPreprocessor \<Rightarrow> counter \<times> counter \<times> counter \<Rightarrow> token
     \<Rightarrow> counter \<times> counter \<times> counter" where
  "process_token lower pp st t =
     (let (verbs, nouns, adjectives) = st
      in if \<not> is_stop t \<and> is_alpha t \<and> length (tok_text t) > 2
         then (let lemma = lower (tok_lemma t)
               in if lemma \<notin> stop_words pp
                  then (if tok_pos t = str ''VERB'' then (counter_inc lemma verbs, nouns, adjectives)
                        else if tok_pos t = str ''NOUN'' then (verbs, counter_inc lemma nouns, adjectives)
                        else if tok_pos t = str ''ADJ'' then (verbs, nouns, counter_inc lemma adjectives)
                        else (verbs, nouns, adjectives))
                  else (verbs, nouns, adjectives))
         else (verbs, nouns, adjectives))"

definition process_doc_tokens ::
  "(str \<Rightarrow> str) \<Rightarrow> TextPreprocessor \<Rightarrow> counter \<times> counter \<times> counter \<Rightarrow> doc
     \<Rightarrow> counter \<times> counter \<times> counter" where
  "process_doc_tokens lower pp st d = foldl (process_token lower pp) st (tokens d)"

text \<open>
  The inclusion rule in the words of the specification, and the amount a token adds to
  key \<open>k\<close> of the bucket for part-of-speech \<open>tag\<close>.
\<close>

definition qualifies :: "(str \<Rightarrow> str) \<Rightarrow> TextPreprocessor \<Rightarrow> token \<Rightarrow> bool" where
  "qualifies lower pp t \<longleftrightarrow>
     \<not> is_stop t \<and> is_alpha t \<and> 2 < length (tok_text t) \<and> lower (tok_lemma t) \<notin> stop_words pp"

definition contributes :: "(str \<Rightarrow> str) \<Rightarrow> TextPreprocessor \<Rightarrow> str \<Rightarrow> str \<Rightarrow> token \<Rightarrow> int" where
  "contributes lower pp tag k t =
     (if qualifies lower pp t \<and> tok_pos t = tag \<and> lower (tok_lemma t) = k then 1 else 0)"

lemma counter_get_inc:
  "counter_get (counter_inc l c) k = counter_get c k + (if k = l then 1 else 0)"
  by (simp add: counter_get_def counter_inc_def update_conv')

lemma tags_distinct:
  "str ''VERB'' \<noteq> str ''NOUN''" "str ''VERB'' \<noteq> str ''ADJ''" "str ''NOUN'' \<noteq> str ''ADJ''"
  by (simp_all add: str_def)

lemma process_token_counts:
  "process_token lower pp (v, n, a) t = (v', n', a') \<Longrightarrow>
     counter_get v' k = counter_get v k + contributes lower pp (str ''VERB'') k t \<and>
     counter_get n' k = counter_get n k + contributes lower pp (str ''NOUN'') k t \<and>
     counter_get a' k = counter_get a k + contributes lower pp (str ''ADJ'') k t"
  using tags_distinct
  by (auto simp: process_token_def contributes_def qualifies_def Let_def counter_get_inc
      split: if_splits)

text \<open>Example preprocessor and tokens.\<close>

definition pp_demo :: TextPreprocessor where
  "pp_demo = \<lparr>stop_words = {str ''the'', str ''be''}, chunk_size = 10\<rparr>"

definition tok_gardens :: token where
  "tok_gardens = \<lparr>tok_text = str ''Gardens'', tok_lemma = str ''Garden'', tok_pos = str ''NOUN'',
     tok_morph = [], is_stop = False, is_alpha = True\<rparr>"

definition tok_lovely :: token where
  "tok_lovely = \<lparr>tok_text = str ''lovely'', tok_lemma = str ''lovely'', tok_pos = str ''ADJ'',
     tok_morph = [], is_stop = False, is_alpha = True\<rparr>"

definition tok_the :: token where
  "tok_the = \<lparr>tok_text = str ''the'', tok_lemma = str ''the'', tok_pos = str ''DET'',
     tok_morph = [], is_stop = True, is_alpha = True\<rparr>"

subsection \<open>FrequencyDist construction and get\_pos\_frequencies\<close>

text \<open>
  \<open>FrequencyDist.__init__\<close> keeps the counter and the ranking index
  \<open>sorted(counter.items(), key=lambda x: (-x[1], x[0]))\<close>. Python's \<open>sorted\<close> is a stable
  sort by the key, as \<open>sort_key\<close> is; tuples and strings compare lexicographically.
\<close>

record FrequencyDist =
  counter :: counter
  sorted_items :: "(str \<times> int) list"

definition new_FrequencyDist :: "counter \<Rightarrow> FrequencyDist" where
  "new_FrequencyDist c = \<lparr>counter = c, sorted_items = sort_key (\<lambda>x. (- snd x, fst x)) c\<rparr>"

text \<open>
  \<open>get_pos_frequencies\<close> accepts a list of docs or a single doc
  (\<open>isinstance(doc_chunks, list)\<close>).
\<close>

datatype doc_chunks = DocList "doc list" | OneDoc doc

definition get_pos_frequencies ::
  "(str \<Rightarrow> str) \<Rightarrow> TextPreprocessor \<Rightarrow> doc_chunks
     \<Rightarrow> FrequencyDist \<times> FrequencyDist \<times> FrequencyDist" where
  "get_pos_frequencies lower pp doc_chunks =
     (let (verbs, nouns, adjectives) =
            (case doc_chunks of
               DocList ds \<Rightarrow> foldl (process_doc_tokens lower pp) ([], [], []) ds
             | OneDoc d \<Rightarrow> process_doc_tokens lower pp ([], [], []) d)
      in (new_FrequencyDist verbs, new_FrequencyDist nouns, new_FrequencyDist adjectives))"

text \<open>
  Merging two Count Tables by key-wise addition of counts, in the words of the
  specification: every entry of the second table is added to the first.
\<close>

definition counter_add :: "str \<Rightarrow> int \<Rightarrow> counter \<Rightarrow> counter" where
  "counter_add k n c = AList.update k (counter_get c k + n) c"

definition merge_counts :: "counter \<Rightarrow> counter \<Rightarrow> counter" where
  "merge_counts a b = foldl (\<lambda>acc (k, n). counter_add k n acc) a b"

text \<open>The three tables that aggregating a list of chunks produces.\<close>

definition verb_table :: "(str \<Rightarrow> str) \<Rightarrow> TextPreprocessor \<Rightarrow> doc list \<Rightarrow> counter" where
  "verb_table lower pp ds = counter (fst (get_pos_frequencies lower pp (DocList ds)))"

definition noun_table :: "(str \<Rightarrow> str) \<Rightarrow> TextPreprocessor \<Rightarrow> doc list \<Rightarrow> counter" where
  "noun_table lower pp ds = counter (fst (snd (get_pos_frequencies lower pp (DocList ds))))"

definition adjective_table :: "(str \<Rightarrow> str) \<Rightarrow> TextPreprocessor \<Rightarrow> doc list \<Rightarrow> counter" where
  "adjective_table lower pp ds = counter (snd (snd (get_pos_frequencies lower pp (DocList ds))))"

subsection \<open>Count Table invariant\<close>

lemma set_update_subset: "set (AList.update k v c) \<subseteq> insert (k, v) (set c)"
  by (induction c) auto

lemma counter_get_nonneg: "count_table c \<Longrightarrow> 0 \<le> counter_get c k"
proof (cases "map_of c k")
  case None
  then show ?thesis by (simp add: counter_get_def)
next
  case (Some v)
  assume ct: "count_table c"
  from Some have "(k, v) \<in> set c" by (rule map_of_SomeD)
  with ct have "1 \<le> v" by (auto simp: count_table_def)
  with Some show ?thesis by (simp add: counter_get_def)
qed

lemma count_table_add:
  assumes "count_table c" and "1 \<le> n"
  shows "count_table (counter_add k n c)"
proof -
  have d: "distinct (map fst (counter_add k n c))"
    using assms(1) by (simp add: counter_add_def count_table_def distinct_update)
  have "1 \<le> counter_get c k + n"
    using counter_get_nonneg [OF assms(1), of k] assms(2) by simp
  then have "\<forall>(k', v) \<in> set (counter_add k n c). 1 \<le> v"
    using assms(1) set_update_subset [of k "counter_get c k + n" c]
    by (auto simp: counter_add_def count_table_def)
  with d show ?thesis by (simp add: count_table_def)
qed

lemma counter_inc_add: "counter_inc k c = counter_add k 1 c"
  by (simp add: counter_inc_def counter_add_def)

lemma count_table_inc: "count_table c \<Longrightarrow> count_table (counter_inc k c)"
  by (simp add: counter_inc_add count_table_add)

lemma count_table_Nil: "count_table []"
  by (simp add: count_table_def)

lemma counter_get_add:
  "counter_get (counter_add l n c) k = counter_get c k + (if k = l then n else 0)"
  by (simp add: counter_get_def counter_add_def update_conv')

text \<open>Equal counts on every key make two count tables the same mapping.\<close>

lemma count_table_map_of_eqI:
  assumes a: "count_table a" and b: "count_table b"
    and eq: "\<And>k. counter_get a k = counter_get b k"
  shows "map_of a = map_of b"
proof
  fix k
  have pos: "\<And>c v. count_table c \<Longrightarrow> map_of c k = Some v \<Longrightarrow> 1 \<le> v"
    by (auto simp: count_table_def dest!: map_of_SomeD)
  show "map_of a k = map_of b k"
    using eq [of k] pos [OF a] pos [OF b]
    by (cases "map_of a k"; cases "map_of b k") (auto simp: counter_get_def)
qed

subsection \<open>Aggregation as a sum over the chunks\<close>

definition bucket_of :: "str \<Rightarrow> counter \<times> counter \<times> counter \<Rightarrow> counter" where
  "bucket_of tag st =
     (if tag = str ''VERB'' then fst st
      else if tag = str ''NOUN'' then fst (snd st)
      else snd (snd st))"

definition pos_tags :: "str set" where
  "pos_tags = {str ''VERB'', str ''NOUN'', str ''ADJ''}"

definition doc_contributes :: "(str \<Rightarrow> str) \<Rightarrow> TextPreprocessor \<Rightarrow> str \<Rightarrow> str \<Rightarrow> doc \<Rightarrow> int" where
  "doc_contributes lower pp tag k d = sum_list (map (contributes lower pp tag k) (tokens d))"

lemma bucket_process_token:
  assumes "tag \<in> pos_tags"
  shows "counter_get (bucket_of tag (process_token lower pp st t)) k =
         counter_get (bucket_of tag st) k + contributes lower pp tag k t"
proof -
  obtain v n a where st: "st = (v, n, a)" by (cases st) auto
  obtain v' n' a' where r: "process_token lower pp (v, n, a) t = (v', n', a')"
    by (cases "process_token lower pp (v, n, a) t") auto
  show ?thesis
    using process_token_counts [OF r, of k] assms tags_distinct
    by (auto simp: st r bucket_of_def pos_tags_def)
qed

lemma bucket_fold_tokens:
  assumes "tag \<in> pos_tags"
  shows "counter_get (bucket_of tag (foldl (process_token lower pp) st ts)) k =
         counter_get (bucket_of tag st) k + sum_list (map (contributes lower pp tag k) ts)"
  by (induction ts arbitrary: st) (simp_all add: bucket_process_token [OF assms])

lemma bucket_fold_docs:
  assumes "tag \<in> pos_tags"
  shows "counter_get (bucket_of tag (foldl (process_doc_tokens lower pp) st ds)) k =
         counter_get (bucket_of tag st) k + sum_list (map (doc_contributes lower pp tag k) ds)"
  by (induction ds arbitrary: st)
    (simp_all add: process_doc_tokens_def doc_contributes_def bucket_fold_tokens [OF assms])

lemma count_table_process_token:
  assumes "count_table (bucket_of tag st)"
  shows "count_table (bucket_of tag (process_token lower pp st t))"
proof -
  obtain v n a where st: "st = (v, n, a)" by (cases st) auto
  show ?thesis
    using assms
    by (auto simp: st process_token_def bucket_of_def Let_def count_table_inc)
qed

lemma count_table_fold_tokens:
  "count_table (bucket_of tag st) \<Longrightarrow>
   count_table (bucket_of tag (foldl (process_token lower pp) st ts))"
  by (induction ts arbitrary: st) (simp_all add: count_table_process_token)

lemma count_table_fold_docs:
  "count_table (bucket_of tag st) \<Longrightarrow>
   count_table (bucket_of tag (foldl (process_doc_tokens lower pp) st ds))"
  by (induction ds arbitrary: st) (simp_all add: process_doc_tokens_def count_table_fold_tokens)

lemma tables_as_buckets:
  "verb_table lower pp ds =
     bucket_of (str ''VERB'') (foldl (process_doc_tokens lower pp) ([], [], []) ds)"
  "noun_table lower pp ds =
     bucket_of (str ''NOUN'') (foldl (process_doc_tokens lower pp) ([], [], []) ds)"
  "adjective_table lower pp ds =
     bucket_of (str ''ADJ'') (foldl (process_doc_tokens lower pp) ([], [], []) ds)"
  using tags_distinct
  by (simp_all add: verb_table_def noun_table_def adjective_table_def get_pos_frequencies_def
      new_FrequencyDist_def bucket_of_def case_prod_unfold Let_def)

lemma counter_get_Nil: "counter_get [] k = 0"
  by (simp add: counter_get_def)

lemma bucket_empty: "bucket_of tag ([], [], []) = []"
  by (simp add: bucket_of_def)

lemma aggregate_counts:
  assumes "tag \<in> pos_tags"
  shows "counter_get (bucket_of tag (foldl (process_doc_tokens lower pp) ([], [], []) ds)) k =
         sum_mset (image_mset (doc_contributes lower pp tag k) (mset ds))"
proof -
  have "sum_mset (image_mset (doc_contributes lower pp tag k) (mset ds)) =
        sum_list (map (doc_contributes lower pp tag k) ds)"
    by (metis mset_map sum_mset_sum_list)
  then show ?thesis
    by (simp add: bucket_fold_docs [OF assms] bucket_empty counter_get_Nil)
qed

lemma aggregate_count_table:
  "count_table (bucket_of tag (foldl (process_doc_tokens lower pp) ([], [], []) ds))"
  by (rule count_table_fold_docs) (simp add: bucket_empty count_table_Nil)

lemma counter_get_merge:
  "counter_get (merge_counts a b) k =
     counter_get a k + sum_list (map snd (filter (\<lambda>p. fst p = k) b))"
  unfolding merge_counts_def
  by (induction b arbitrary: a) (auto simp: counter_get_add)

lemma counter_get_as_sum:
  "distinct (map fst b) \<Longrightarrow> sum_list (map snd (filter (\<lambda>p. fst p = k) b)) = counter_get b k"
proof (induction b)
  case Nil
  show ?case by (simp add: counter_get_def)
next
  case (Cons p b)
  obtain k' v where p: "p = (k', v)" by (cases p) auto
  show ?case
  proof (cases "k' = k")
    case True
    with Cons.prems p have "k \<notin> fst ` set b" by auto
    then have "filter (\<lambda>p. fst p = k) b = []"
      by (auto simp: filter_empty_conv)
    with True p show ?thesis by (simp add: counter_get_def)
  next
    case False
    with Cons p show ?thesis by (simp add: counter_get_def)
  qed
qed

lemma count_table_merge:
  "count_table a \<Longrightarrow> count_table b \<Longrightarrow> count_table (merge_counts a b)"
  unfolding merge_counts_def
proof (induction b arbitrary: a)
  case Nil
  then show ?case by simp
next
  case (Cons p b)
  obtain k n where p: "p = (k, n)" by (cases p) auto
  from Cons.prems(2) p have n: "1 \<le> n" and b: "count_table b"
    by (auto simp: count_table_def)
  from count_table_add [OF Cons.prems(1) n] have "count_table (counter_add k n a)" .
  from Cons.IH [OF this b] p show ?case by simp
qed

lemma merge_aggregates:
  assumes tag: "tag \<in> pos_tags" and part: "mset g1 + mset g2 = mset chunks"
  shows "map_of (merge_counts
            (bucket_of tag (foldl (process_doc_tokens lower pp) ([], [], []) g1))
            (bucket_of tag (foldl (process_doc_tokens lower pp) ([], [], []) g2))) =
         map_of (bucket_of tag (foldl (process_doc_tokens lower pp) ([], [], []) chunks))"
proof (rule count_table_map_of_eqI)
  let ?agg = "\<lambda>ds. bucket_of tag (foldl (process_doc_tokens lower pp) ([], [], []) ds)"
  show "count_table (merge_counts (?agg g1) (?agg g2))"
    by (intro count_table_merge aggregate_count_table)
  show "count_table (?agg chunks)"
    by (rule aggregate_count_table)
  fix k
  have d: "distinct (map fst (?agg g2))"
    using aggregate_count_table [of tag lower pp g2] by (simp add: count_table_def)
  have "counter_get (merge_counts (?agg g1) (?agg g2)) k =
        counter_get (?agg g1) k + counter_get (?agg g2) k"
    by (simp add: counter_get_merge counter_get_as_sum [OF d])
  also have "\<dots> = sum_mset (image_mset (doc_contributes lower pp tag k) (mset g1 + mset g2))"
    by (simp add: aggregate_counts [OF tag])
  also have "\<dots> = counter_get (?agg chunks) k"
    by (simp only: part aggregate_counts [OF tag])
  finally show "counter_get (merge_counts (?agg g1) (?agg g2)) k = counter_get (?agg chunks) k" .
qed

text \<open>The docs that \<open>get_pos_frequencies\<close> iterates over for either form of its argument.\<close>

definition chunk_docs :: "doc_chunks \<Rightarrow> doc list" where
  "chunk_docs dc = (case dc of DocList ds \<Rightarrow> ds | OneDoc d \<Rightarrow> [d])"

lemma bucket_of_triple:
  "bucket_of (str ''VERB'') (v, n, a) = v"
  "bucket_of (str ''NOUN'') (v, n, a) = n"
  "bucket_of (str ''ADJ'') (v, n, a) = a"
  using tags_distinct by (simp_all add: bucket_of_def)

lemma process_doc_tokens_counts:
  assumes "process_doc_tokens lower pp (v, n, a) d = (v', n', a')"
  shows "counter_get v' k =
           counter_get v k + sum_list (map (contributes lower pp (str ''VERB'') k) (tokens d))
       \<and> counter_get n' k =
           counter_get n k + sum_list (map (contributes lower pp (str ''NOUN'') k) (tokens d))
       \<and> counter_get a' k =
           counter_get a k + sum_list (map (contributes lower pp (str ''ADJ'') k) (tokens d))"
proof -
  have "counter_get (bucket_of tag (v', n', a')) k =
        counter_get (bucket_of tag (v, n, a)) k
          + sum_list (map (contributes lower pp tag k) (tokens d))"
    if "tag \<in> pos_tags" for tag
    using bucket_fold_tokens [OF that, of lower pp "(v, n, a)" "tokens d" k] assms
    by (simp add: process_doc_tokens_def)
  from this [of "str ''VERB''"] this [of "str ''NOUN''"] this [of "str ''ADJ''"]
  show ?thesis by (simp add: pos_tags_def bucket_of_triple)
qed

lemma get_pos_frequencies_counts:
  assumes "get_pos_frequencies lower pp dc = (vf, nf, af)"
  shows "counter_get (counter vf) k =
           sum_list (map (doc_contributes lower pp (str ''VERB'') k) (chunk_docs dc))
       \<and> counter_get (counter nf) k =
           sum_list (map (doc_contributes lower pp (str ''NOUN'') k) (chunk_docs dc))
       \<and> counter_get (counter af) k =
           sum_list (map (doc_contributes lower pp (str ''ADJ'') k) (chunk_docs dc))"
proof -
  let ?st = "foldl (process_doc_tokens lower pp) ([], [], []) (chunk_docs dc)"
  have loop: "(case dc of
                 DocList ds \<Rightarrow> foldl (process_doc_tokens lower pp) ([], [], []) ds
               | OneDoc d \<Rightarrow> process_doc_tokens lower pp ([], [], []) d) = ?st"
    by (cases dc) (simp_all add: chunk_docs_def)
  obtain v n a where st: "?st = (v, n, a)" by (cases ?st) auto
  from assms have fd: "vf = new_FrequencyDist v" "nf = new_FrequencyDist n"
      "af = new_FrequencyDist a"
    by (simp_all add: get_pos_frequencies_def loop st)
  have "counter_get (bucket_of tag (v, n, a)) k =
        sum_list (map (doc_contributes lower pp tag k) (chunk_docs dc))"
    if "tag \<in> pos_tags" for tag
    using bucket_fold_docs [OF that, of lower pp "([], [], [])" "chunk_docs dc" k]
    by (simp add: st bucket_empty counter_get_Nil)
  from this [of "str ''VERB''"] this [of "str ''NOUN''"] this [of "str ''ADJ''"]
  show ?thesis
    by (simp add: pos_tags_def bucket_of_triple fd new_FrequencyDist_def)
qed

text \<open>
  C4. Processing one token adds, to the count of key \<open>k\<close> in each of the three buckets,
  exactly 1 when the token is not a stop word, is alphabetic, has a surface text longer
  than 2 characters, has a lowercased lemma outside the stop-word set, carries the tag of
  that bucket (VERB, NOUN, ADJ) and \<open>k\<close> is its lowercased lemma, and 0 otherwise. Over the
  three buckets together the token adds 1 in total exactly under these conditions, so it is
  counted in one bucket only; a token with any other tag leaves all three tables unchanged.
  Accordingly \<open>_process_doc_tokens\<close> adds to each count the sum of these amounts over the
  tokens of the doc, and in the tables that \<open>get_pos_frequencies\<close> returns the count of a
  key is the sum of them over all tokens of all chunks.
\<close>

theorem process_token_contribution:
  "(case process_token lower pp (v, n, a) t of (v', n', a') \<Rightarrow>
      counter_get v' k = counter_get v k + contributes lower pp (str ''VERB'') k t \<and>
      counter_get n' k = counter_get n k + contributes lower pp (str ''NOUN'') k t \<and>
      counter_get a' k = counter_get a k + contributes lower pp (str ''ADJ'') k t)
   \<and> contributes lower pp (str ''VERB'') k t + contributes lower pp (str ''NOUN'') k t
       + contributes lower pp (str ''ADJ'') k t =
     (if \<not> is_stop t \<and> is_alpha t \<and> 2 < length (tok_text t)
         \<and> lower (tok_lemma t) \<notin> stop_words pp
         \<and> tok_pos t \<in> {str ''VERB'', str ''NOUN'', str ''ADJ''}
         \<and> k = lower (tok_lemma t)
      then 1 else 0)
   \<and> (tok_pos t \<notin> {str ''VERB'', str ''NOUN'', str ''ADJ''} \<longrightarrow>
        process_token lower pp (v, n, a) t = (v, n, a))
   \<and> (case process_doc_tokens lower pp (v, n, a) d of (v', n', a') \<Rightarrow>
        counter_get v' k =
          counter_get v k + sum_list (map (contributes lower pp (str ''VERB'') k) (tokens d)) \<and>
        counter_get n' k =
          counter_get n k + sum_list (map (contributes lower pp (str ''NOUN'') k) (tokens d)) \<and>
        counter_get a' k =
          counter_get a k + sum_list (map (contributes lower pp (str ''ADJ'') k) (tokens d)))
   \<and> (case get_pos_frequencies lower pp dc of (vf, nf, af) \<Rightarrow>
        counter_get (counter vf) k =
          sum_list (map (\<lambda>d. sum_list (map (contributes lower pp (str ''VERB'') k) (tokens d)))
                     (chunk_docs dc)) \<and>
        counter_get (counter nf) k =
          sum_list (map (\<lambda>d. sum_list (map (contributes lower pp (str ''NOUN'') k) (tokens d)))
                     (chunk_docs dc)) \<and>
        counter_get (counter af) k =
          sum_list (map (\<lambda>d. sum_list (map (contributes lower pp (str ''ADJ'') k) (tokens d)))
                     (chunk_docs dc)))"
proof (intro conjI)
  show "case process_token lower pp (v, n, a) t of (v', n', a') \<Rightarrow>
      counter_get v' k = counter_get v k + contributes lower pp (str ''VERB'') k t \<and>
      counter_get n' k = counter_get n k + contributes lower pp (str ''NOUN'') k t \<and>
      counter_get a' k = counter_get a k + contributes lower pp (str ''ADJ'') k t"
    using process_token_counts [of lower pp v n a t]
    by (cases "process_token lower pp (v, n, a) t") auto
  show "contributes lower pp (str ''VERB'') k t + contributes lower pp (str ''NOUN'') k t
       + contributes lower pp (str ''ADJ'') k t =
     (if \<not> is_stop t \<and> is_alpha t \<and> 2 < length (tok_text t)
         \<and> lower (tok_lemma t) \<notin> stop_words pp
         \<and> tok_pos t \<in> {str ''VERB'', str ''NOUN'', str ''ADJ''}
         \<and> k = lower (tok_lemma t)
      then 1 else 0)"
    using tags_distinct by (auto simp: contributes_def qualifies_def)
  show "tok_pos t \<notin> {str ''VERB'', str ''NOUN'', str ''ADJ''} \<longrightarrow>
        process_token lower pp (v, n, a) t = (v, n, a)"
    by (auto simp: process_token_def Let_def)
  show "case process_doc_tokens lower pp (v, n, a) d of (v', n', a') \<Rightarrow>
        counter_get v' k =
          counter_get v k + sum_list (map (contributes lower pp (str ''VERB'') k) (tokens d)) \<and>
        counter_get n' k =
          counter_get n k + sum_list (map (contributes lower pp (str ''NOUN'') k) (tokens d)) \<and>
        counter_get a' k =
          counter_get a k + sum_list (map (contributes lower pp (str ''ADJ'') k) (tokens d))"
    using process_doc_tokens_counts [of lower pp v n a d]
    by (cases "process_doc_tokens lower pp (v, n, a) d") auto
  show "case get_pos_frequencies lower pp dc of (vf, nf, af) \<Rightarrow>
        counter_get (counter vf) k =
          sum_list (map (\<lambda>d. sum_list (map (contributes lower pp (str ''VERB'') k) (tokens d)))
                     (chunk_docs dc)) \<and>
        counter_get (counter nf) k =
          sum_list (map (\<lambda>d. sum_list (map (contributes lower pp (str ''NOUN'') k) (tokens d)))
                     (chunk_docs dc)) \<and>
        counter_get (counter af) k =
          sum_list (map (\<lambda>d. sum_list (map (contributes lower pp (str ''ADJ'') k) (tokens d)))
                     (chunk_docs dc))"
    using get_pos_frequencies_counts [of lower pp dc]
    by (cases "get_pos_frequencies lower pp dc") (auto simp: doc_contributes_def [abs_def])
qed

text \<open>
  C5. For every sequence of chunks and every split of it into two groups (any two
  sequences that together hold the same chunks, in any order), aggregating each group and
  merging the two tables by key-wise addition gives the same Count Table, as a mapping from
  key to count, as aggregating the whole sequence, in each of the verb, noun and adjective
  buckets.
\<close>

theorem aggregation_merge:
  assumes "mset g1 + mset g2 = mset chunks"
  shows "map_of (merge_counts (verb_table lower pp g1) (verb_table lower pp g2)) =
           map_of (verb_table lower pp chunks)
       \<and> map_of (merge_counts (noun_table lower pp g1) (noun_table lower pp g2)) =
           map_of (noun_table lower pp chunks)
       \<and> map_of (merge_counts (adjective_table lower pp g1) (adjective_table lower pp g2)) =
           map_of (adjective_table lower pp chunks)"
  unfolding tables_as_buckets
  by (intro conjI merge_aggregates [OF _ assms]) (simp_all add: pos_tags_def)

text \<open>Example chunks.\<close>

definition doc_a :: doc where
  "doc_a = \<lparr>tokens = [tok_the, tok_lovely, tok_gardens], noun_chunks = [[tok_the, tok_lovely, tok_gardens]]\<rparr>"

definition doc_b :: doc where
  "doc_b = \<lparr>tokens = [tok_gardens], noun_chunks = [[tok_gardens]]\<rparr>"

lemma noun_table_demo:
  "noun_table ascii_lower pp_demo [doc_b, doc_a] = [(str ''garden'', 2)]"
  by (simp add: noun_table_def get_pos_frequencies_def process_doc_tokens_def process_token_def
      new_FrequencyDist_def counter_inc_def counter_get_def doc_a_def doc_b_def tok_the_def
      tok_lovely_def tok_gardens_def pp_demo_def ascii_lower_def str_def Let_def)

theorem aggregation_merge_witness:
  "mset [doc_a] + mset [doc_b] = mset [doc_b, doc_a]
   \<and> map_of (merge_counts (noun_table ascii_lower pp_demo [doc_a])
                           (noun_table ascii_lower pp_demo [doc_b])) =
      map_of [(str ''garden'', 2)]"
proof -
  have h: "mset [doc_a] + mset [doc_b] = mset [doc_b, doc_a]" by simp
  show ?thesis
    using h aggregation_merge [OF h, of ascii_lower pp_demo] noun_table_demo by simp
qed

lemma doc_a_contributions:
  "sum_list (map (contributes ascii_lower pp_demo (str ''VERB'') (str ''garden'')) (tokens doc_a)) = 0"
  "sum_list (map (contributes ascii_lower pp_demo (str ''NOUN'') (str ''garden'')) (tokens doc_a)) = 1"
  "sum_list (map (contributes ascii_lower pp_demo (str ''ADJ'') (str ''garden'')) (tokens doc_a)) = 0"
  by (simp_all add: contributes_def qualifies_def doc_a_def tok_the_def tok_lovely_def
      tok_gardens_def pp_demo_def ascii_lower_def str_def)

theorem process_token_contribution_witness:
  "(case process_token ascii_lower pp_demo ([], [], []) tok_gardens of (v', n', a') \<Rightarrow>
      counter_get v' (str ''garden'') = 0 \<and> counter_get n' (str ''garden'') = 1
      \<and> counter_get a' (str ''garden'') = 0)
   \<and> tok_pos tok_the \<notin> {str ''VERB'', str ''NOUN'', str ''ADJ''}
   \<and> process_token ascii_lower pp_demo ([], [], []) tok_the = ([], [], [])
   \<and> (case process_doc_tokens ascii_lower pp_demo ([], [], []) doc_a of (v', n', a') \<Rightarrow>
      counter_get v' (str ''garden'') = 0 \<and> counter_get n' (str ''garden'') = 1
      \<and> counter_get a' (str ''garden'') = 0)
   \<and> (case get_pos_frequencies ascii_lower pp_demo (DocList [doc_a, doc_a]) of (vf, nf, af) \<Rightarrow>
      counter_get (counter vf) (str ''garden'') = 0 \<and> counter_get (counter nf) (str ''garden'') = 2
      \<and> counter_get (counter af) (str ''garden'') = 0)"
proof -
  have c: "contributes ascii_lower pp_demo (str ''VERB'') (str ''garden'') tok_gardens = 0"
    "contributes ascii_lower pp_demo (str ''NOUN'') (str ''garden'') tok_gardens = 1"
    "contributes ascii_lower pp_demo (str ''ADJ'') (str ''garden'') tok_gardens = 0"
    by (simp_all add: contributes_def qualifies_def tok_gardens_def pp_demo_def ascii_lower_def
        str_def)
  have t: "tok_pos tok_the \<notin> {str ''VERB'', str ''NOUN'', str ''ADJ''}"
    by (simp add: tok_the_def str_def)
  have d: "chunk_docs (DocList [doc_a, doc_a]) = [doc_a, doc_a]"
    by (simp add: chunk_docs_def)
  note g = process_token_contribution [where lower = ascii_lower and pp = pp_demo and v = "[]"
          and n = "[]" and a = "[]" and t = tok_gardens and k = "str ''garden''" and d = doc_a
          and dc = "DocList [doc_a, doc_a]"]
  note h = process_token_contribution [where lower = ascii_lower and pp = pp_demo and v = "[]"
          and n = "[]" and a = "[]" and t = tok_the and k = "str ''the''"]
  from g have "case process_token ascii_lower pp_demo ([], [], []) tok_gardens of (v', n', a') \<Rightarrow>
      counter_get v' (str ''garden'') = 0 \<and> counter_get n' (str ''garden'') = 1
      \<and> counter_get a' (str ''garden'') = 0"
    by (simp add: c counter_get_Nil split: prod.splits)
  moreover from h t have "process_token ascii_lower pp_demo ([], [], []) tok_the = ([], [], [])"
    by blast
  moreover from g have "case process_doc_tokens ascii_lower pp_demo ([], [], []) doc_a of
      (v', n', a') \<Rightarrow>
      counter_get v' (str ''garden'') = 0 \<and> counter_get n' (str ''garden'') = 1
      \<and> counter_get a' (str ''garden'') = 0"
    by (simp add: doc_a_contributions counter_get_Nil split: prod.splits)
  moreover from g have "case get_pos_frequencies ascii_lower pp_demo (DocList [doc_a, doc_a]) of
      (vf, nf, af) \<Rightarrow>
      counter_get (counter vf) (str ''garden'') = 0 \<and> counter_get (counter nf) (str ''garden'') = 2
      \<and> counter_get (counter af) (str ''garden'') = 0"
    by (simp add: d doc_a_contributions split: prod.splits)
  ultimately show ?thesis using t by simp
qed

section \<open>Queries of FrequencyDist\<close>

text \<open>
  \<open>xs[:n]\<close> for an integer \<open>n\<close>: the first \<open>n\<close> elements, and for a negative \<open>n\<close> all but
  the last \<open>-n\<close>. \<open>sorted(xs, key=f, reverse=True)\<close> sorts in descending order and keeps
  elements with equal keys in their original order; CPython reverses the list, sorts it
  stably and reverses the result.
\<close>

definition py_slice_to :: "int \<Rightarrow> 'a list \<Rightarrow> 'a list" where
  "py_slice_to n xs = (if 0 \<le> n then take (nat n) xs else take (length xs - nat (- n)) xs)"

definition py_sorted_reverse :: "('a \<Rightarrow> 'k::linorder) \<Rightarrow> 'a list \<Rightarrow> 'a list" where
  "py_sorted_reverse key xs = rev (sort_key key (rev xs))"

text \<open>
  The optional arguments \<open>n\<close>, \<open>start\<close> and \<open>end\<close> default to \<open>None\<close>; \<open>min_freq\<close> defaults
  to 1 and the \<open>n\<close> of \<open>get_longest\<close> to 10. None of the four queries raises.
\<close>

definition most_common :: "int option \<Rightarrow> FrequencyDist \<Rightarrow> (str \<times> int) list" where
  "most_common n fd =
     (case n of None \<Rightarrow> sorted_items fd | Some m \<Rightarrow> py_slice_to m (sorted_items fd))"

definition least_common :: "int option \<Rightarrow> int \<Rightarrow> FrequencyDist \<Rightarrow> (str \<times> int) list" where
  "least_common n min_freq fd =
     (let filtered = filter (\<lambda>(w, c). c \<ge> min_freq) (sorted_items fd)
      in case n of None \<Rightarrow> rev filtered | Some m \<Rightarrow> py_slice_to m (rev filtered))"

definition get_range :: "int option \<Rightarrow> int option \<Rightarrow> FrequencyDist \<Rightarrow> (str \<times> int) list" where
  "get_range start stop fd =
     filter (\<lambda>(w, c). (case start of None \<Rightarrow> True | Some s \<Rightarrow> c \<ge> s) \<and>
                       (case stop of None \<Rightarrow> True | Some e \<Rightarrow> c \<le> e))
       (sorted_items fd)"

definition get_longest :: "int \<Rightarrow> FrequencyDist \<Rightarrow> (str \<times> int) list" where
  "get_longest n fd =
     (let sorted_by_length = py_sorted_reverse (\<lambda>x. (length (fst x), snd x)) (counter fd)
      in py_slice_to n sorted_by_length)"

text \<open>
  \<open>get_stats\<close> builds its dictionary entry by entry: \<open>sum\<close>, \<open>len\<close>, \<open>np.mean\<close>,
  \<open>np.median\<close>, \<open>max\<close>, \<open>min\<close>. The sum, the length, the maximum and the minimum are exact
  integers; \<open>max\<close> and \<open>min\<close> of an empty list raise \<open>ValueError\<close>. \<open>np.mean\<close> and
  \<open>np.median\<close> belong to numpy: they return a float64 or raise (\<open>OverflowError\<close> on a
  count beyond the float64 range). They are the parameters \<open>np_mean\<close> and \<open>np_median\<close>, with
  \<open>'f\<close> the type of their results, so that nothing is assumed about the floats they
  compute.
\<close>

datatype error = ValueError | OverflowError

record 'f stats =
  total_occurrences :: int
  unique_words :: nat
  mean_frequency :: 'f
  median_frequency :: 'f
  max_frequency :: int
  min_frequency :: int

definition py_max :: "int list \<Rightarrow> error + int" where
  "py_max xs = (case xs of [] \<Rightarrow> Inl ValueError | y # ys \<Rightarrow> Inr (fold max ys y))"

definition py_min :: "int list \<Rightarrow> error + int" where
  "py_min xs = (case xs of [] \<Rightarrow> Inl ValueError | y # ys \<Rightarrow> Inr (fold min ys y))"

definition get_stats ::
  "(int list \<Rightarrow> error + 'f) \<Rightarrow> (int list \<Rightarrow> error + 'f) \<Rightarrow> FrequencyDist \<Rightarrow> error + 'f stats" where
  "get_stats np_mean np_median fd =
     (let frequencies = map snd (counter fd);
          total = sum_list frequencies;
          unique = length (counter fd)
      in case np_mean frequencies of
           Inl e \<Rightarrow> Inl e
         | Inr mean \<Rightarrow>
             (case np_median frequencies of
                Inl e \<Rightarrow> Inl e
              | Inr median \<Rightarrow>
                  (case py_max frequencies of
                     Inl e \<Rightarrow> Inl e
                   | Inr mx \<Rightarrow>
                       (case py_min frequencies of
                          Inl e \<Rightarrow> Inl e
                        | Inr mn \<Rightarrow>
                            Inr \<lparr>total_occurrences = total, unique_words = unique,
                                 mean_frequency = mean, median_frequency = median,
                                 max_frequency = mx, min_frequency = mn\<rparr>))))"

text \<open>
  On the empty list \<open>np.mean\<close> and \<open>np.median\<close> return nan, with a warning and without
  raising. \<open>np_of_empty\<close> is numpy's answer on that input, the only one on which it is
  used below.
\<close>

datatype nan = NaN

definition np_of_empty :: "int list \<Rightarrow> error + nan" where
  "np_of_empty xs = Inr NaN"

subsection \<open>The ranking index\<close>

text \<open>
  The order of the ranking index in the words of the specification: descending count, ties
  broken by ascending key.
\<close>

definition ranked_before :: "str \<times> int \<Rightarrow> str \<times> int \<Rightarrow> bool" where
  "ranked_before x y \<longleftrightarrow> snd y < snd x \<or> (snd x = snd y \<and> fst x < fst y)"

lemma sorted_items_new: "sorted_items (new_FrequencyDist c) = sort_key (\<lambda>x. (- snd x, fst x)) c"
  by (simp add: new_FrequencyDist_def)

lemma counter_new: "counter (new_FrequencyDist c) = c"
  by (simp add: new_FrequencyDist_def)

lemma py_slice_to_length: "py_slice_to (int (length xs)) xs = xs"
  by (simp add: py_slice_to_def)

lemma ranking_set: "set (sorted_items (new_FrequencyDist c)) = set c"
  by (simp add: sorted_items_new)

lemma ranking_distinct_keys:
  assumes "distinct (map fst c)"
  shows "distinct (map fst (sorted_items (new_FrequencyDist c)))"
proof -
  from assms have "distinct c" and "inj_on fst (set c)"
    by (simp_all add: distinct_map)
  then show ?thesis
    by (simp add: distinct_map sorted_items_new)
qed

lemma ranking_sorted:
  assumes "distinct (map fst c)"
  shows "sorted_wrt ranked_before (sorted_items (new_FrequencyDist c))"
proof -
  let ?f = "\<lambda>x::str \<times> int. (- snd x, fst x)"
  let ?s = "sort_key ?f c"
  from assms have "distinct c" by (simp add: distinct_map)
  then have "distinct (map ?f ?s)"
    by (auto simp: distinct_map inj_on_def prod_eq_iff)
  moreover have "sorted (map ?f ?s)" by (rule sorted_sort_key)
  ultimately have "sorted_wrt (<) (map ?f ?s)" by (simp add: strict_sorted_iff)
  then have "sorted_wrt (\<lambda>x y. ?f x < ?f y) ?s" by (simp add: sorted_wrt_map)
  then have "sorted_wrt ranked_before ?s"
    by (rule sorted_wrt_mono_rel [rotated]) (auto simp: ranked_before_def less_prod_def)
  then show ?thesis by (simp add: sorted_items_new)
qed

lemma filter_min_freq_id:
  assumes "count_table c" and "min_freq \<le> 1"
  shows "filter (\<lambda>(w, n). n \<ge> min_freq) (sorted_items (new_FrequencyDist c)) =
         sorted_items (new_FrequencyDist c)"
proof -
  have "\<forall>x \<in> set (sorted_items (new_FrequencyDist c)). (\<lambda>(w, n). n \<ge> min_freq) x"
    using assms by (auto simp: ranking_set count_table_def)
  then show ?thesis by (simp add: filter_id_conv)
qed

text \<open>
  C8. For a Frequency Distribution over a Count Table with n entries (unique keys, counts
  at least 1), the reversal of \<open>most_common(n)\<close> equals \<open>least_common(n)\<close> with the default
  minimum frequency 1; \<open>most_common(n)\<close> lists every key of the table exactly once, hence so
  does \<open>least_common(n)\<close>. The ranking index holds exactly the entries of the table, each
  key once, sorted by descending count with ties broken by ascending key.
\<close>

theorem ranking_reversal:
  assumes "count_table c"
  shows "rev (most_common (Some (int (length c))) (new_FrequencyDist c)) =
           least_common (Some (int (length c))) 1 (new_FrequencyDist c)
       \<and> distinct (map fst (most_common (Some (int (length c))) (new_FrequencyDist c)))
       \<and> set (map fst (most_common (Some (int (length c))) (new_FrequencyDist c))) = set (map fst c)
       \<and> set (sorted_items (new_FrequencyDist c)) = set c
       \<and> distinct (map fst (sorted_items (new_FrequencyDist c)))
       \<and> sorted_wrt ranked_before (sorted_items (new_FrequencyDist c))"
proof -
  let ?fd = "new_FrequencyDist c"
  from assms have d: "distinct (map fst c)" by (simp add: count_table_def)
  have len: "length (sorted_items ?fd) = length c" by (simp add: sorted_items_new)
  have mc: "most_common (Some (int (length c))) ?fd = sorted_items ?fd"
    using py_slice_to_length [of "sorted_items ?fd"] by (simp add: most_common_def len)
  have lc: "least_common (Some (int (length c))) 1 ?fd = rev (sorted_items ?fd)"
    using py_slice_to_length [of "rev (sorted_items ?fd)"]
    by (simp add: least_common_def filter_min_freq_id [OF assms] len)
  show ?thesis
    using ranking_distinct_keys [OF d] ranking_sorted [OF d]
    by (simp add: mc lc ranking_set)
qed

text \<open>Example table.\<close>

definition table_demo :: counter where
  "table_demo = [(str ''b'', 2), (str ''a'', 2), (str ''c'', 5)]"

theorem ranking_reversal_witness:
  "count_table table_demo
   \<and> least_common (Some 3) 1 (new_FrequencyDist table_demo) =
       rev (most_common (Some 3) (new_FrequencyDist table_demo))
   \<and> most_common (Some 3) (new_FrequencyDist table_demo) =
       [(str ''c'', 5), (str ''a'', 2), (str ''b'', 2)]"
proof -
  have h: "count_table table_demo"
    by (simp add: count_table_def table_demo_def str_def)
  have m: "most_common (Some 3) (new_FrequencyDist table_demo) =
       [(str ''c'', 5), (str ''a'', 2), (str ''b'', 2)]"
    by (simp add: most_common_def new_FrequencyDist_def table_demo_def py_slice_to_def str_def)
  have l: "int (length table_demo) = 3" by (simp add: table_demo_def)
  show ?thesis
    using h m ranking_reversal [OF h] by (simp add: l)
qed

subsection \<open>Query bounds\<close>

text \<open>
  C7, as stated, fails: \<open>get_range(5, 2)\<close> returns the empty list and
  \<open>least_common(min_freq=-1)\<close> returns every entry; neither reports an error.
\<close>

theorem query_bounds_counterexample:
  "get_range (Some 5) (Some 2) (new_FrequencyDist [(str ''ab'', 3)]) = []
   \<and> least_common None (- 1) (new_FrequencyDist [(str ''ab'', 3)]) = [(str ''ab'', 3)]"
  by (simp add: get_range_def least_common_def new_FrequencyDist_def)

text \<open>
  C7, amended. \<open>get_range\<close> and \<open>least_common\<close> do not check their bounds:
  \<open>get_range(start, end)\<close> with \<open>end < start\<close> returns the empty sequence, and
  \<open>least_common\<close> with a negative \<open>min_freq\<close> on a Count Table returns what it returns with
  the default \<open>min_freq\<close>, every entry of the ranking index in reverse order when \<open>n\<close> is
  absent.
\<close>

theorem query_bounds_unchecked:
  "(e < s \<longrightarrow> get_range (Some s) (Some e) fd = [])
   \<and> (count_table c \<and> min_freq < 0 \<longrightarrow>
        least_common n min_freq (new_FrequencyDist c) = least_common n 1 (new_FrequencyDist c)
        \<and> least_common None min_freq (new_FrequencyDist c) =
            rev (sorted_items (new_FrequencyDist c)))"
proof (intro conjI impI)
  assume "e < s"
  then have "\<forall>x \<in> set (sorted_items fd). \<not> (\<lambda>(w, c). s \<le> c \<and> c \<le> e) x"
    by auto
  then show "get_range (Some s) (Some e) fd = []"
    by (simp add: get_range_def filter_empty_conv)
next
  assume h: "count_table c \<and> min_freq < 0"
  then have ct: "count_table c" and m: "min_freq \<le> 1" by simp_all
  show "least_common n min_freq (new_FrequencyDist c) = least_common n 1 (new_FrequencyDist c)"
    by (simp add: least_common_def filter_min_freq_id [OF ct m] filter_min_freq_id [OF ct order_refl])
  show "least_common None min_freq (new_FrequencyDist c) = rev (sorted_items (new_FrequencyDist c))"
    by (simp add: least_common_def filter_min_freq_id [OF ct m])
qed

theorem query_bounds_unchecked_witness:
  "(2::int) < 5 \<and> count_table table_demo \<and> (- 1::int) < 0
   \<and> get_range (Some 5) (Some 2) (new_FrequencyDist table_demo) = []
   \<and> least_common None (- 1) (new_FrequencyDist table_demo) =
       [(str ''b'', 2), (str ''a'', 2), (str ''c'', 5)]"
proof -
  have h: "count_table table_demo"
    by (simp add: count_table_def table_demo_def str_def)
  have r: "rev (sorted_items (new_FrequencyDist table_demo)) =
       [(str ''b'', 2), (str ''a'', 2), (str ''c'', 5)]"
    by (simp add: new_FrequencyDist_def table_demo_def str_def)
  from h query_bounds_unchecked [of 2 5 "new_FrequencyDist table_demo" table_demo "- 1" None]
  have "get_range (Some 5) (Some 2) (new_FrequencyDist table_demo) = []"
    and "least_common None (- 1) (new_FrequencyDist table_demo) =
         rev (sorted_items (new_FrequencyDist table_demo))"
    by auto
  with h r show ?thesis by simp
qed

subsection \<open>Statistics\<close>

text \<open>
  C6, as stated, fails: on a table with zero entries \<open>get_stats\<close> raises the
  \<open>ValueError\<close> of \<open>max\<close> on an empty list.
\<close>

theorem get_stats_empty_counterexample:
  "get_stats np_of_empty np_of_empty (new_FrequencyDist []) = Inl ValueError"
  by (simp add: get_stats_def new_FrequencyDist_def py_max_def np_of_empty_def)

lemma py_max_Cons: "py_max (x # xs) = Inr (Max (set (x # xs)))"
  by (simp only: py_max_def list.case Max.set_eq_fold)

lemma py_min_Cons: "py_min (x # xs) = Inr (Min (set (x # xs)))"
  by (simp only: py_min_def list.case Min.set_eq_fold)

text \<open>
  On a table with entries, when numpy returns, the integer fields are the sum of the
  counts, the number of keys, the largest and the smallest count, and the two float fields
  are whatever numpy returned.
\<close>

lemma get_stats_nonempty:
  assumes "c \<noteq> []" and "np_mean (map snd c) = Inr m" and "np_median (map snd c) = Inr d"
  shows "get_stats np_mean np_median (new_FrequencyDist c) =
           Inr \<lparr>total_occurrences = sum_list (map snd c), unique_words = length c,
                mean_frequency = m, median_frequency = d,
                max_frequency = Max (snd ` set c), min_frequency = Min (snd ` set c)\<rparr>"
proof (cases c)
  case Nil
  with assms(1) show ?thesis by simp
next
  case (Cons p ps)
  with assms(2,3) show ?thesis
    by (simp add: get_stats_def counter_new py_max_Cons py_min_Cons Let_def)
qed

text \<open>
  C6, amended. \<open>get_stats()\<close> on a Count Table with zero entries never returns statistics
  and reports no EmptyDistribution result: it raises an exception to the caller, which is
  Python's \<open>ValueError\<close> from \<open>max\<close> over the empty list of counts whenever numpy's mean
  and median of the empty list return, as they do.
\<close>

theorem get_stats_value_error:
  "get_stats np_mean np_median (new_FrequencyDist []) \<noteq> Inr s
   \<and> (np_mean [] = Inr m \<and> np_median [] = Inr d \<longrightarrow>
        get_stats np_mean np_median (new_FrequencyDist []) = Inl ValueError)"
  by (auto simp: get_stats_def counter_new py_max_def split: sum.splits)

theorem get_stats_value_error_witness:
  "np_of_empty [] = Inr NaN
   \<and> get_stats np_of_empty np_of_empty (new_FrequencyDist []) = Inl ValueError"
proof -
  have e: "np_of_empty [] = Inr NaN" by (simp add: np_of_empty_def)
  with get_stats_value_error [of np_of_empty np_of_empty _ NaN NaN] show ?thesis by simp
qed

subsection \<open>Longest keys\<close>

text \<open>
  The order of \<open>get_longest\<close> in the words of the specification: key length descending,
  then count descending. Two entries have the same rank when they agree on both.
\<close>

definition longer_first :: "str \<times> int \<Rightarrow> str \<times> int \<Rightarrow> bool" where
  "longer_first x y \<longleftrightarrow>
     length (fst y) < length (fst x) \<or> (length (fst x) = length (fst y) \<and> snd y \<le> snd x)"

definition same_rank :: "str \<times> int \<Rightarrow> str \<times> int \<Rightarrow> bool" where
  "same_rank x y \<longleftrightarrow> length (fst y) = length (fst x) \<and> snd y = snd x"

text \<open>
  Two chunks, each with one noun; aggregated in the two possible orders they give the same
  mapping with different insertion orders.
\<close>

definition tok_flowers :: token where
  "tok_flowers = \<lparr>tok_text = str ''flowers'', tok_lemma = str ''flower'', tok_pos = str ''NOUN'',
     tok_morph = [], is_stop = False, is_alpha = True\<rparr>"

definition doc_f :: doc where
  "doc_f = \<lparr>tokens = [tok_flowers], noun_chunks = [[tok_flowers]]\<rparr>"

lemma noun_table_two_orders:
  "noun_table ascii_lower pp_demo [doc_b, doc_f] = [(str ''garden'', 1), (str ''flower'', 1)]"
  "noun_table ascii_lower pp_demo [doc_f, doc_b] = [(str ''flower'', 1), (str ''garden'', 1)]"
  by (simp_all add: noun_table_def get_pos_frequencies_def process_doc_tokens_def process_token_def
      new_FrequencyDist_def counter_inc_def counter_get_def doc_f_def doc_b_def tok_flowers_def
      tok_gardens_def pp_demo_def ascii_lower_def str_def Let_def)

text \<open>
  C10, as stated, fails: the noun tables of the same two chunks aggregated in the two
  orders are equal as mappings, and \<open>get_longest(1)\<close> returns a different entry for each.
\<close>

theorem get_longest_order_counterexample:
  "map_of (noun_table ascii_lower pp_demo [doc_b, doc_f]) =
     map_of (noun_table ascii_lower pp_demo [doc_f, doc_b])
   \<and> get_longest 1 (new_FrequencyDist (noun_table ascii_lower pp_demo [doc_b, doc_f])) =
       [(str ''garden'', 1)]
   \<and> get_longest 1 (new_FrequencyDist (noun_table ascii_lower pp_demo [doc_f, doc_b])) =
       [(str ''flower'', 1)]
   \<and> str ''garden'' \<noteq> str ''flower''"
proof (intro conjI)
  show "map_of (noun_table ascii_lower pp_demo [doc_b, doc_f]) =
     map_of (noun_table ascii_lower pp_demo [doc_f, doc_b])"
    unfolding noun_table_two_orders by (rule ext) (simp add: str_def)
  show "get_longest 1 (new_FrequencyDist (noun_table ascii_lower pp_demo [doc_b, doc_f])) =
       [(str ''garden'', 1)]"
    unfolding noun_table_two_orders
    by (simp add: get_longest_def new_FrequencyDist_def py_sorted_reverse_def py_slice_to_def
        str_def)
  show "get_longest 1 (new_FrequencyDist (noun_table ascii_lower pp_demo [doc_f, doc_b])) =
       [(str ''flower'', 1)]"
    unfolding noun_table_two_orders
    by (simp add: get_longest_def new_FrequencyDist_def py_sorted_reverse_def py_slice_to_def
        str_def)
  show "str ''garden'' \<noteq> str ''flower''" by (simp add: str_def)
qed

lemma longest_full:
  "get_longest (int (length c)) (new_FrequencyDist c) =
     py_sorted_reverse (\<lambda>x. (length (fst x), snd x)) c"
  using py_slice_to_length [of "py_sorted_reverse (\<lambda>x. (length (fst x), snd x)) c"]
  by (simp add: get_longest_def counter_new py_sorted_reverse_def)

lemma sorted_reverse_descending:
  "sorted_wrt (\<lambda>x y. key y \<le> key x) (py_sorted_reverse key xs)"
proof -
  have "sorted (map key (sort_key key (rev xs)))" by (rule sorted_sort_key)
  then have "sorted_wrt (\<lambda>x y. key x \<le> key y) (sort_key key (rev xs))"
    by (simp add: sorted_wrt_map)
  then show ?thesis
    by (simp add: py_sorted_reverse_def sorted_wrt_rev)
qed

lemma sorted_reverse_stable:
  "filter (\<lambda>y. key y = k) (py_sorted_reverse key xs) = filter (\<lambda>y. key y = k) xs"
proof -
  have "filter (\<lambda>y. key y = k) (py_sorted_reverse key xs) =
        rev (filter (\<lambda>y. key y = k) (sort_key key (rev xs)))"
    by (simp add: py_sorted_reverse_def rev_filter)
  also have "\<dots> = rev (filter (\<lambda>y. key y = k) (rev xs))"
    by (simp only: sort_key_stable)
  also have "\<dots> = filter (\<lambda>y. key y = k) xs"
    by (simp add: rev_filter)
  finally show ?thesis .
qed

lemma sorted_reverse_mapping_only:
  assumes d: "distinct (map fst c)" and d': "distinct (map fst c')"
    and m: "map_of c = map_of c'" and inj: "inj_on key (set c)"
  shows "py_sorted_reverse key c = py_sorted_reverse key c'"
proof -
  from d d' m have s: "set c = set c'" by (simp add: map_of_inject_set)
  from d d' have "distinct c" "distinct c'" by (simp_all add: distinct_map)
  with s have "mset c = mset c'" by (simp add: set_eq_iff_mset_eq_distinct)
  then have "mset (rev c) = mset (sort_key key (rev c'))" by simp
  moreover from inj have "inj_on key (set (rev c))" by simp
  moreover have "sorted (map key (sort_key key (rev c')))" by (rule sorted_sort_key)
  ultimately have "sort_key key (rev c) = sort_key key (rev c')"
    by (rule sort_key_inj_key_eq)
  then show ?thesis by (simp add: py_sorted_reverse_def)
qed

text \<open>
  C10, amended. \<open>get_longest(n)\<close> is a function of the entries of the Count Table in
  their insertion order: it is the truncation to \<open>n\<close> of the sequence of all entries sorted
  by key length descending then count descending, in which entries that agree on both keep
  their insertion order. Two distributions built from equal Count Tables return the same
  sequence whenever no two entries of the table agree on both key length and count.
\<close>

theorem get_longest_order:
  "get_longest n (new_FrequencyDist c) =
     py_slice_to n (get_longest (int (length c)) (new_FrequencyDist c))
   \<and> mset (get_longest (int (length c)) (new_FrequencyDist c)) = mset c
   \<and> sorted_wrt longer_first (get_longest (int (length c)) (new_FrequencyDist c))
   \<and> filter (same_rank x) (get_longest (int (length c)) (new_FrequencyDist c)) =
       filter (same_rank x) c
   \<and> (distinct (map fst c) \<and> distinct (map fst c') \<and> map_of c = map_of c'
        \<and> (\<forall>x \<in> set c. \<forall>y \<in> set c. same_rank x y \<longrightarrow> x = y)
      \<longrightarrow> get_longest n (new_FrequencyDist c) = get_longest n (new_FrequencyDist c'))"
proof (intro conjI impI)
  let ?key = "\<lambda>x::str \<times> int. (length (fst x), snd x)"
  show "get_longest n (new_FrequencyDist c) =
     py_slice_to n (get_longest (int (length c)) (new_FrequencyDist c))"
    by (simp add: longest_full) (simp add: get_longest_def counter_new)
  show "mset (get_longest (int (length c)) (new_FrequencyDist c)) = mset c"
    by (simp add: longest_full py_sorted_reverse_def)
  have "sorted_wrt (\<lambda>x y. ?key y \<le> ?key x) (py_sorted_reverse ?key c)"
    by (rule sorted_reverse_descending)
  then have "sorted_wrt longer_first (py_sorted_reverse ?key c)"
    by (rule sorted_wrt_mono_rel [rotated]) (auto simp: longer_first_def less_eq_prod_def)
  then show "sorted_wrt longer_first (get_longest (int (length c)) (new_FrequencyDist c))"
    by (simp add: longest_full)
  have sr: "same_rank x = (\<lambda>y. ?key y = ?key x)"
    by (auto simp: same_rank_def fun_eq_iff)
  show "filter (same_rank x) (get_longest (int (length c)) (new_FrequencyDist c)) =
       filter (same_rank x) c"
    unfolding sr longest_full by (rule sorted_reverse_stable)
next
  let ?key = "\<lambda>x::str \<times> int. (length (fst x), snd x)"
  assume h: "distinct (map fst c) \<and> distinct (map fst c') \<and> map_of c = map_of c'
        \<and> (\<forall>x \<in> set c. \<forall>y \<in> set c. same_rank x y \<longrightarrow> x = y)"
  then have "inj_on ?key (set c)"
    by (auto simp: inj_on_def same_rank_def)
  with h have "py_sorted_reverse ?key c = py_sorted_reverse ?key c'"
    by (intro sorted_reverse_mapping_only) simp_all
  then show "get_longest n (new_FrequencyDist c) = get_longest n (new_FrequencyDist c')"
    by (simp add: get_longest_def counter_new)
qed

definition table_untied :: counter where
  "table_untied = [(str ''ab'', 2), (str ''c'', 5), (str ''abc'', 2)]"

definition table_untied_reordered :: counter where
  "table_untied_reordered = [(str ''c'', 5), (str ''abc'', 2), (str ''ab'', 2)]"

theorem get_longest_order_witness:
  "distinct (map fst table_untied) \<and> distinct (map fst table_untied_reordered)
   \<and> map_of table_untied = map_of table_untied_reordered
   \<and> get_longest 2 (new_FrequencyDist table_untied) = [(str ''abc'', 2), (str ''ab'', 2)]
   \<and> get_longest 2 (new_FrequencyDist table_untied_reordered) = [(str ''abc'', 2), (str ''ab'', 2)]"
proof -
  have d: "distinct (map fst table_untied)" "distinct (map fst table_untied_reordered)"
    by (simp_all add: table_untied_def table_untied_reordered_def str_def)
  have m: "map_of table_untied = map_of table_untied_reordered"
    by (rule ext) (simp add: table_untied_def table_untied_reordered_def str_def)
  have u: "\<forall>x \<in> set table_untied. \<forall>y \<in> set table_untied. same_rank x y \<longrightarrow> x = y"
    by (simp add: table_untied_def same_rank_def str_def)
  have g: "get_longest 2 (new_FrequencyDist table_untied) = [(str ''abc'', 2), (str ''ab'', 2)]"
    by (simp add: get_longest_def new_FrequencyDist_def py_sorted_reverse_def py_slice_to_def
        table_untied_def str_def)
  from d m u get_longest_order [of 2 table_untied _ table_untied_reordered]
  have "get_longest 2 (new_FrequencyDist table_untied) =
        get_longest 2 (new_FrequencyDist table_untied_reordered)"
    by blast
  with d m u g show ?thesis by simp
qed

section \<open>Text chunker (WIL\_demo\_Terminology, TextPreprocessor)\<close>

text \<open>
  The code points for which \<open>str.isspace()\<close> holds. \<open>str.strip()\<close>, \<open>str.split()\<close> and
  the class \<open>\s\<close> of a \<open>str\<close> pattern all use this set.
\<close>

definition isspace :: "nat \<Rightarrow> bool" where
  "isspace c \<longleftrightarrow>
     (9 \<le> c \<and> c \<le> 13) \<or> (28 \<le> c \<and> c \<le> 32) \<or> c = 133 \<or> c = 160 \<or> c = 5760 \<or>
     (8192 \<le> c \<and> c \<le> 8202) \<or> c = 8232 \<or> c = 8233 \<or> c = 8239 \<or> c = 8287 \<or> c = 12288"

definition strip :: "str \<Rightarrow> str" where
  "strip s = rev (dropWhile isspace (rev (dropWhile isspace s)))"

text \<open>
  \<open>re.split(r'\n\s*\n', text)\<close>. The pattern matches at a newline (code point 10) when
  the run of whitespace that follows it contains another newline; the star is greedy, so
  the match ends at the last newline of that run. The search resumes after the match, and
  the pieces between the matches are returned, the last one up to the end of the text. The
  first argument of \<open>re_split_blank\<close> is the piece read so far.
\<close>

definition after_last_newline :: "str \<Rightarrow> str" where
  "after_last_newline ws = rev (takeWhile (\<lambda>c. c \<noteq> 10) (rev ws))"

lemma length_after_last_newline: "length (after_last_newline ws) \<le> length ws"
  unfolding after_last_newline_def
  by (metis length_rev length_takeWhile_le)

lemma length_rest_after_match:
  "length (after_last_newline (takeWhile isspace cs) @ dropWhile isspace cs) \<le> length cs"
proof -
  have "length (takeWhile isspace cs) + length (dropWhile isspace cs) = length cs"
    by (metis length_append takeWhile_dropWhile_id)
  with length_after_last_newline [of "takeWhile isspace cs"] show ?thesis by simp
qed

function re_split_blank :: "str \<Rightarrow> str \<Rightarrow> str list" where
  "re_split_blank cur [] = [cur]"
| "re_split_blank cur (c # cs) =
     (if c = 10 \<and> 10 \<in> set (takeWhile isspace cs)
      then cur # re_split_blank []
             (after_last_newline (takeWhile isspace cs) @ dropWhile isspace cs)
      else re_split_blank (cur @ [c]) cs)"
  by pat_completeness auto
termination
proof (relation "measure (\<lambda>(cur, s). length s)")
  show "wf (measure (\<lambda>(cur, s). length s))" by simp
next
  fix cur :: str and c :: nat and cs :: str
  show "(([], after_last_newline (takeWhile isspace cs) @ dropWhile isspace cs), cur, c # cs)
         \<in> measure (\<lambda>(cur, s). length s)"
    using length_rest_after_match [of cs] by simp
next
  fix cur :: str and c :: nat and cs :: str
  show "((cur @ [c], cs), cur, c # cs) \<in> measure (\<lambda>(cur, s). length s)" by simp
qed

definition split_paragraphs :: "str \<Rightarrow> str list" where
  "split_paragraphs text = [strip p. p \<leftarrow> re_split_blank [] text, strip p \<noteq> []]"

text \<open>\<open>sep.join(xs)\<close>.\<close>

fun join :: "str \<Rightarrow> str list \<Rightarrow> str" where
  "join sep [] = []"
| "join sep [x] = x"
| "join sep (x # y # ys) = x @ sep @ join sep (y # ys)"

text \<open>
  One iteration of the loop of \<open>process_text\<close> over the paragraphs, on the state
  \<open>(chunks, current_chunk, current_length)\<close>, and the function itself. The annotation engine
  \<open>self.nlp\<close> is the parameter \<open>nlp\<close>; with the identity for it the result is the sequence
  of chunk texts handed to the engine.
\<close>

definition chunk_step ::
  "(str \<Rightarrow> 'd) \<Rightarrow> int \<Rightarrow> 'd list \<times> str list \<times> int \<Rightarrow> str \<Rightarrow> 'd list \<times> str list \<times> int" where
  "chunk_step nlp max_size st para =
     (let (chunks, current_chunk, current_length) = st
      in if current_length + int (length para) > max_size
         then (let chunk_text = join [10, 10] current_chunk
               in (chunks @ [nlp chunk_text], [para], int (length para)))
         else (chunks, current_chunk @ [para], current_length + int (length para)))"

definition process_text :: "(str \<Rightarrow> 'd) \<Rightarrow> TextPreprocessor \<Rightarrow> str \<Rightarrow> 'd list" where
  "process_text nlp pp text =
     (let paragraphs = split_paragraphs text;
          (chunks, current_chunk, current_length) =
             foldl (chunk_step nlp (chunk_size pp)) ([], [], 0) paragraphs
      in if current_chunk \<noteq> []
         then (let chunk_text = join [10, 10] current_chunk in chunks @ [nlp chunk_text])
         else chunks)"




subsection \<open>The paragraphs of each chunk\<close>

text \<open>
  The same loop, keeping each chunk as the list of its paragraphs instead of joining it.
\<close>

definition group_step ::
  "int \<Rightarrow> str list list \<times> str list \<times> int \<Rightarrow> str \<Rightarrow> str list list \<times> str list \<times> int" where
  "group_step max_size st para =
     (let (groups, current_chunk, current_length) = st
      in if current_length + int (length para) > max_size
         then (groups @ [current_chunk], [para], int (length para))
         else (groups, current_chunk @ [para], current_length + int (length para)))"

definition chunk_groups :: "int \<Rightarrow> str list \<Rightarrow> str list list" where
  "chunk_groups max_size paragraphs =
     (let (groups, current_chunk, current_length) =
             foldl (group_step max_size) ([], [], 0) paragraphs
      in if current_chunk \<noteq> [] then groups @ [current_chunk] else groups)"

definition paragraph_chars :: "str list \<Rightarrow> int" where
  "paragraph_chars g = sum_list (map (\<lambda>p. int (length p)) g)"

definition group_within :: "int \<Rightarrow> str list \<Rightarrow> bool" where
  "group_within max_size g \<longleftrightarrow> (2 \<le> length g \<longrightarrow> paragraph_chars g \<le> max_size)"

lemma group_step_eq:
  "group_step m (gs, cur, len) p =
     (if len + int (length p) > m then (gs @ [cur], [p], int (length p))
      else (gs, cur @ [p], len + int (length p)))"
  by (simp add: group_step_def)

lemma chunk_step_eq:
  "chunk_step nlp m (cs, cur, len) p =
     (if len + int (length p) > m then (cs @ [nlp (join [10, 10] cur)], [p], int (length p))
      else (cs, cur @ [p], len + int (length p)))"
  by (simp add: chunk_step_def)

lemma chunk_loop_groups:
  "foldl (chunk_step nlp m) (map (\<lambda>g. nlp (join [10, 10] g)) gs, cur, len) ps =
     (case foldl (group_step m) (gs, cur, len) ps of
        (gs', cur', len') \<Rightarrow> (map (\<lambda>g. nlp (join [10, 10] g)) gs', cur', len'))"
proof (induction ps arbitrary: gs cur len)
  case Nil
  show ?case by simp
next
  case (Cons p ps)
  show ?case
  proof (cases "len + int (length p) > m")
    case True
    then show ?thesis
      using Cons.IH [of "gs @ [cur]" "[p]" "int (length p)"]
      by (simp add: chunk_step_eq group_step_eq)
  next
    case False
    then show ?thesis
      using Cons.IH [of gs "cur @ [p]" "len + int (length p)"]
      by (simp add: chunk_step_eq group_step_eq)
  qed
qed

lemma process_text_groups:
  "process_text nlp pp text =
     map (\<lambda>g. nlp (join [10, 10] g)) (chunk_groups (chunk_size pp) (split_paragraphs text))"
proof -
  obtain gs cur len where f:
    "foldl (group_step (chunk_size pp)) ([], [], 0) (split_paragraphs text) = (gs, cur, len)"
    by (cases "foldl (group_step (chunk_size pp)) ([], [], 0) (split_paragraphs text)") auto
  from chunk_loop_groups [of nlp "chunk_size pp" "[]" "[]" 0 "split_paragraphs text"] f
  have "foldl (chunk_step nlp (chunk_size pp)) ([], [], 0) (split_paragraphs text) =
        (map (\<lambda>g. nlp (join [10, 10] g)) gs, cur, len)"
    by simp
  with f show ?thesis
    by (simp add: process_text_def chunk_groups_def)
qed

lemma group_loop_invariant:
  assumes "len = paragraph_chars cur" and "group_within m cur"
    and "\<forall>g \<in> set gs. group_within m g"
    and "foldl (group_step m) (gs, cur, len) ps = (gs', cur', len')"
  shows "len' = paragraph_chars cur' \<and> group_within m cur' \<and> (\<forall>g \<in> set gs'. group_within m g)
         \<and> concat gs' @ cur' = concat gs @ cur @ ps"
  using assms
proof (induction ps arbitrary: gs cur len)
  case Nil
  then show ?case by auto
next
  case (Cons p ps)
  show ?case
  proof (cases "len + int (length p) > m")
    case True
    with Cons.prems(4)
    have f: "foldl (group_step m) (gs @ [cur], [p], int (length p)) ps = (gs', cur', len')"
      by (simp add: group_step_eq)
    have a: "int (length p) = paragraph_chars [p]" by (simp add: paragraph_chars_def)
    have b: "group_within m [p]" by (simp add: group_within_def)
    have c: "\<forall>g \<in> set (gs @ [cur]). group_within m g"
      using Cons.prems(2,3) by simp
    from Cons.IH [OF a b c f] show ?thesis by simp
  next
    case False
    with Cons.prems(4)
    have f: "foldl (group_step m) (gs, cur @ [p], len + int (length p)) ps = (gs', cur', len')"
      by (simp add: group_step_eq)
    have a: "len + int (length p) = paragraph_chars (cur @ [p])"
      using Cons.prems(1) by (simp add: paragraph_chars_def)
    have b: "group_within m (cur @ [p])"
      using False Cons.prems(1) by (simp add: group_within_def paragraph_chars_def)
    from Cons.IH [OF a b Cons.prems(3) f] show ?thesis by simp
  qed
qed

lemma chunk_groups_within:
  "(\<forall>g \<in> set (chunk_groups m ps). group_within m g) \<and> concat (chunk_groups m ps) = ps"
proof -
  obtain gs cur len where f: "foldl (group_step m) ([], [], 0) ps = (gs, cur, len)"
    by (cases "foldl (group_step m) ([], [], 0) ps") auto
  have "len = paragraph_chars cur \<and> group_within m cur \<and> (\<forall>g \<in> set gs. group_within m g)
         \<and> concat gs @ cur = concat [] @ [] @ ps"
    by (rule group_loop_invariant [OF _ _ _ f])
      (simp_all add: paragraph_chars_def group_within_def)
  with f show ?thesis
    by (auto simp: chunk_groups_def)
qed

lemma length_join:
  "g \<noteq> [] \<Longrightarrow>
   int (length (join sep g)) = paragraph_chars g + int (length sep) * (int (length g) - 1)"
proof (induction sep g rule: join.induct)
  case (1 sep)
  then show ?case by simp
next
  case (2 sep x)
  show ?case by (simp add: paragraph_chars_def)
next
  case (3 sep x y ys)
  then show ?case by (simp add: paragraph_chars_def algebra_simps)
qed

text \<open>
  C2, amended. The chunks are the joins, with a blank-line separator, of consecutive groups
  of the paragraphs. In every chunk made of one or more paragraphs the character lengths of
  the paragraphs sum to at most \<open>max_chunk_size\<close>, except when the chunk consists of a single
  paragraph that alone exceeds the limit; the chunk's own character length is that sum plus
  2 for each separator between its paragraphs.
\<close>

theorem chunk_length_bound:
  "process_text nlp pp text =
     map (\<lambda>g. nlp (join [10, 10] g)) (chunk_groups (chunk_size pp) (split_paragraphs text))
   \<and> concat (chunk_groups (chunk_size pp) (split_paragraphs text)) = split_paragraphs text
   \<and> (\<forall>g \<in> set (chunk_groups (chunk_size pp) (split_paragraphs text)). g \<noteq> [] \<longrightarrow>
        (paragraph_chars g \<le> chunk_size pp \<or> (\<exists>p. g = [p] \<and> chunk_size pp < int (length p)))
        \<and> int (length (join [10, 10] g)) = paragraph_chars g + 2 * (int (length g) - 1))"
proof (intro conjI ballI impI)
  show "process_text nlp pp text =
     map (\<lambda>g. nlp (join [10, 10] g)) (chunk_groups (chunk_size pp) (split_paragraphs text))"
    by (rule process_text_groups)
  show "concat (chunk_groups (chunk_size pp) (split_paragraphs text)) = split_paragraphs text"
    using chunk_groups_within by blast
next
  fix g
  assume g: "g \<in> set (chunk_groups (chunk_size pp) (split_paragraphs text))" and ne: "g \<noteq> []"
  from g chunk_groups_within have w: "group_within (chunk_size pp) g" by blast
  show "paragraph_chars g \<le> chunk_size pp \<or> (\<exists>p. g = [p] \<and> chunk_size pp < int (length p))"
  proof (cases "2 \<le> length g")
    case True
    with w show ?thesis by (simp add: group_within_def)
  next
    case False
    with ne have "length g = 1" by (cases g) (auto simp: not_le less_Suc_eq_0_disj)
    then obtain p where p: "g = [p]" by (auto simp: length_Suc_conv)
    then have "paragraph_chars g = int (length p)" by (simp add: paragraph_chars_def)
    with p show ?thesis by (cases "chunk_size pp < int (length p)") auto
  qed
  from length_join [OF ne, of "[10, 10]"]
  show "int (length (join [10, 10] g)) = paragraph_chars g + 2 * (int (length g) - 1)" by simp
qed

text \<open>Example inputs.\<close>

definition pp_three :: TextPreprocessor where
  "pp_three = \<lparr>stop_words = {}, chunk_size = 3\<rparr>"

definition text_two_paragraphs :: str where
  "text_two_paragraphs = str ''aaaaa'' @ [10, 10] @ str ''bbbbb''"

definition text_three_paragraphs :: str where
  "text_three_paragraphs = str ''ab'' @ [10, 10] @ str ''cd'' @ [10, 10] @ str ''e''"

lemma split_two_paragraphs:
  "split_paragraphs text_two_paragraphs = [str ''aaaaa'', str ''bbbbb'']"
  by (simp add: text_two_paragraphs_def split_paragraphs_def strip_def isspace_def
      after_last_newline_def str_def)

lemma split_three_paragraphs:
  "split_paragraphs text_three_paragraphs = [str ''ab'', str ''cd'', str ''e'']"
  by (simp add: text_three_paragraphs_def split_paragraphs_def strip_def isspace_def
      after_last_newline_def str_def)

text \<open>
  C2, as stated, fails: with \<open>max_chunk_size = 10\<close> two paragraphs of 5 characters are
  joined into one chunk of 12 characters.
\<close>

theorem chunk_length_counterexample:
  "split_paragraphs text_two_paragraphs = [str ''aaaaa'', str ''bbbbb'']
   \<and> process_text (\<lambda>s. s) pp_demo text_two_paragraphs = [str ''aaaaa'' @ [10, 10] @ str ''bbbbb'']
   \<and> chunk_size pp_demo = 10
   \<and> length (str ''aaaaa'' @ [10, 10] @ str ''bbbbb'') = 12"
  by (simp add: split_two_paragraphs process_text_def chunk_step_eq pp_demo_def)
    (simp add: str_def)

lemma groups_three_paragraphs:
  "chunk_groups 3 [str ''ab'', str ''cd'', str ''e''] = [[str ''ab''], [str ''cd'', str ''e'']]"
  by (simp add: chunk_groups_def group_step_eq str_def)

theorem chunk_length_bound_witness:
  "process_text (\<lambda>s. s) pp_three text_three_paragraphs =
     [str ''ab'', str ''cd'' @ [10, 10] @ str ''e'']
   \<and> paragraph_chars [str ''cd'', str ''e''] \<le> 3
   \<and> int (length (join [10, 10] [str ''cd'', str ''e''])) = 5"
proof -
  have cs: "chunk_size pp_three = 3" by (simp add: pp_three_def)
  have g: "[str ''cd'', str ''e''] \<in>
             set (chunk_groups (chunk_size pp_three) (split_paragraphs text_three_paragraphs))"
    by (simp add: cs split_three_paragraphs groups_three_paragraphs)
  have ne: "[str ''cd'', str ''e''] \<noteq> []" by simp
  have p: "paragraph_chars [str ''cd'', str ''e''] = 3"
    by (simp add: paragraph_chars_def str_def)
  from chunk_length_bound [of "\<lambda>s. s" pp_three text_three_paragraphs] g ne
  have "process_text (\<lambda>s. s) pp_three text_three_paragraphs =
          map (join [10, 10]) (chunk_groups (chunk_size pp_three) (split_paragraphs text_three_paragraphs))"
    and "int (length (join [10, 10] [str ''cd'', str ''e''])) =
           paragraph_chars [str ''cd'', str ''e''] + 2 * (int (length [str ''cd'', str ''e'']) - 1)"
    by blast+
  then show ?thesis
    by (simp add: cs split_three_paragraphs groups_three_paragraphs p)
qed

subsection \<open>Texts without paragraph boundary\<close>

text \<open>
  C3. The text \<open>abcdef\<close> has no paragraph boundary and is longer than the chunk size 3:
  \<open>process_text\<close> returns two chunks, an empty one followed by the paragraph, where the
  claim says exactly one.
\<close>

theorem single_oversized_paragraph_two_chunks:
  "process_text (\<lambda>s. s) pp_three (str ''abcdef'') = [[], str ''abcdef'']"
  by (simp add: process_text_def split_paragraphs_def chunk_step_eq strip_def isspace_def
      pp_three_def str_def)

text \<open>
  A text has a paragraph boundary when some newline is followed by a run of whitespace that
  contains a newline. Without one the text is a single paragraph; a text of whitespace only
  has no paragraph at all.
\<close>

fun has_blank_line_boundary :: "str \<Rightarrow> bool" where
  "has_blank_line_boundary [] = False"
| "has_blank_line_boundary (c # cs) =
     ((c = 10 \<and> 10 \<in> set (takeWhile isspace cs)) \<or> has_blank_line_boundary cs)"

lemma re_split_no_boundary:
  "\<not> has_blank_line_boundary s \<Longrightarrow> re_split_blank cur s = [cur @ s]"
  by (induction s arbitrary: cur) auto

lemma set_after_last_newline: "set (after_last_newline ws) \<subseteq> set ws"
  unfolding after_last_newline_def
  by (metis set_rev set_takeWhileD subsetI)

lemma re_split_pieces:
  "p \<in> set (re_split_blank cur s) \<Longrightarrow> set p \<subseteq> set cur \<union> set s"
proof (induction cur s rule: re_split_blank.induct)
  case (1 cur)
  then show ?case by simp
next
  case (2 cur c cs)
  show ?case
  proof (cases "c = 10 \<and> 10 \<in> set (takeWhile isspace cs)")
    case True
    with "2.prems" have "p = cur \<or>
        p \<in> set (re_split_blank [] (after_last_newline (takeWhile isspace cs) @ dropWhile isspace cs))"
      by simp
    then show ?thesis
    proof
      assume "p = cur"
      then show ?thesis by auto
    next
      assume "p \<in> set (re_split_blank []
                 (after_last_newline (takeWhile isspace cs) @ dropWhile isspace cs))"
      from "2.IH"(1) [OF True this]
      have "set p \<subseteq> set (after_last_newline (takeWhile isspace cs)) \<union> set (dropWhile isspace cs)"
        by simp
      moreover have "set (after_last_newline (takeWhile isspace cs)) \<subseteq> set cs"
        using set_after_last_newline [of "takeWhile isspace cs"] set_takeWhileD by fastforce
      moreover have "set (dropWhile isspace cs) \<subseteq> set cs"
        using set_dropWhileD by fastforce
      ultimately show ?thesis by auto
    qed
  next
    case False
    with "2.prems" have "p \<in> set (re_split_blank (cur @ [c]) cs)" by auto
    from "2.IH"(2) [OF False this] show ?thesis by auto
  qed
qed

lemma strip_whitespace:
  assumes "\<forall>c \<in> set p. isspace c"
  shows "strip p = []"
proof -
  from assms have d: "dropWhile isspace p = []" by (simp add: dropWhile_eq_Nil_conv)
  show ?thesis unfolding strip_def d by simp
qed

lemma split_paragraphs_whitespace:
  assumes "\<forall>c \<in> set text. isspace c"
  shows "split_paragraphs text = []"
proof -
  have "strip p = []" if "p \<in> set (re_split_blank [] text)" for p
    using re_split_pieces [OF that] assms by (intro strip_whitespace) auto
  then show ?thesis
    by (simp add: split_paragraphs_def)
qed

lemma process_text_whitespace_only:
  "\<forall>c \<in> set text. isspace c \<Longrightarrow> process_text nlp pp text = []"
  by (simp add: split_paragraphs_whitespace process_text_def)

lemma process_text_no_boundary:
  assumes "\<not> has_blank_line_boundary text" and "strip text \<noteq> []"
  shows "process_text nlp pp text =
           (if int (length (strip text)) > chunk_size pp then [nlp [], nlp (strip text)]
            else [nlp (strip text)])"
  using assms
  by (simp add: process_text_def split_paragraphs_def re_split_no_boundary chunk_step_eq)

section \<open>Phrase aggregation (WIL\_demo\_Terminology, PhraseAnalyzer)\<close>

text \<open>
  \<open>s.split()\<close>: the maximal runs of characters that are not whitespace. The first
  argument of \<open>split_words\<close> is the word read so far.
\<close>

fun split_words :: "str \<Rightarrow> str \<Rightarrow> str list" where
  "split_words w [] = (if w = [] then [] else [w])"
| "split_words w (c # cs) =
     (if isspace c then (if w = [] then split_words [] cs else w # split_words [] cs)
      else split_words (w @ [c]) cs)"

definition py_split :: "str \<Rightarrow> str list" where
  "py_split s = split_words [] s"

text \<open>
  The body of the inner loop of \<open>get_noun_phrases\<close> on one noun chunk, and the function.
\<close>

definition phrase_step :: "(str \<Rightarrow> str) \<Rightarrow> counter \<Rightarrow> token list \<Rightarrow> counter" where
  "phrase_step lower noun_phrases chunk =
     (let phrase = join [32] [lower (tok_lemma t). t \<leftarrow> chunk, \<not> is_stop t \<and> is_alpha t]
      in if phrase \<noteq> [] \<and> length (py_split phrase) > 1
         then counter_inc phrase noun_phrases
         else noun_phrases)"

definition get_noun_phrases :: "(str \<Rightarrow> str) \<Rightarrow> doc list \<Rightarrow> FrequencyDist" where
  "get_noun_phrases lower doc_chunks =
     new_FrequencyDist
       (foldl (\<lambda>noun_phrases d. foldl (phrase_step lower) noun_phrases (noun_chunks d))
          [] doc_chunks)"

text \<open>
  In the words of the specification: the lowercased lemmas of the alphabetic, non-stop
  tokens of a span in span order, and the normalized phrase joining them with spaces.
\<close>

definition content_lemmas :: "(str \<Rightarrow> str) \<Rightarrow> token list \<Rightarrow> str list" where
  "content_lemmas lower toks =
     map (\<lambda>t. lower (tok_lemma t)) (filter (\<lambda>t. is_alpha t \<and> \<not> is_stop t) toks)"

definition normalized_phrase :: "(str \<Rightarrow> str) \<Rightarrow> token list \<Rightarrow> str" where
  "normalized_phrase lower toks = join [32] (content_lemmas lower toks)"

text \<open>
  What a span adds to the count of key \<open>k\<close>: 1 when its normalized phrase is \<open>k\<close> and has
  2 or more whitespace-separated words. The second weight reads the claim literally: 1 when
  the normalized phrase is \<open>k\<close> and 2 or more lemmas were retained. A plain word is
  non-empty and free of whitespace.
\<close>

definition phrase_weight :: "(str \<Rightarrow> str) \<Rightarrow> str \<Rightarrow> token list \<Rightarrow> int" where
  "phrase_weight lower k toks =
     (if 2 \<le> length (py_split (normalized_phrase lower toks)) \<and> normalized_phrase lower toks = k
      then 1 else 0)"

definition retained_weight :: "(str \<Rightarrow> str) \<Rightarrow> str \<Rightarrow> token list \<Rightarrow> int" where
  "retained_weight lower k toks =
     (if 2 \<le> length (content_lemmas lower toks) \<and> normalized_phrase lower toks = k
      then 1 else 0)"

definition plain_word :: "str \<Rightarrow> bool" where
  "plain_word w \<longleftrightarrow> w \<noteq> [] \<and> (\<forall>c \<in> set w. \<not> isspace c)"

lemma comprehension_eq:
  "[lower (tok_lemma t). t \<leftarrow> chunk, \<not> is_stop t \<and> is_alpha t] = content_lemmas lower chunk"
  by (induction chunk) (auto simp: content_lemmas_def)

lemma py_split_Nil: "py_split [] = []"
  by (simp add: py_split_def)

lemma phrase_step_eq:
  "phrase_step lower np toks =
     (if 2 \<le> length (py_split (normalized_phrase lower toks))
      then counter_inc (normalized_phrase lower toks) np else np)"
proof (cases "normalized_phrase lower toks = []")
  case True
  then show ?thesis
    by (simp add: phrase_step_def comprehension_eq normalized_phrase_def py_split_Nil)
next
  case False
  then show ?thesis
    by (auto simp: phrase_step_def comprehension_eq normalized_phrase_def)
qed

lemma phrase_step_count:
  "counter_get (phrase_step lower np toks) k = counter_get np k + phrase_weight lower k toks"
  by (auto simp: phrase_step_eq phrase_weight_def counter_get_inc)

lemma phrase_fold_spans:
  "counter_get (foldl (phrase_step lower) np spans) k =
     counter_get np k + sum_list (map (phrase_weight lower k) spans)"
  by (induction spans arbitrary: np) (simp_all add: phrase_step_count)

lemma phrase_fold_docs:
  "counter_get (foldl (\<lambda>np d. foldl (phrase_step lower) np (noun_chunks d)) np ds) k =
     counter_get np k + sum_list (map (phrase_weight lower k) (concat (map noun_chunks ds)))"
  by (induction ds arbitrary: np) (simp_all add: phrase_fold_spans)

lemma split_words_plain:
  "\<forall>c \<in> set w'. \<not> isspace c \<Longrightarrow> split_words w (w' @ rest) = split_words (w @ w') rest"
  by (induction w' arbitrary: w) simp_all

lemma isspace_blank: "isspace 32"
  by (simp add: isspace_def)

lemma py_split_join:
  "\<forall>w \<in> set ws. plain_word w \<Longrightarrow> py_split (join [32] ws) = ws"
proof (induction "[32::nat]" ws rule: join.induct)
  case 1
  show ?case by (simp add: py_split_def)
next
  case (2 x)
  then have "x \<noteq> []" and "\<forall>c \<in> set x. \<not> isspace c" by (simp_all add: plain_word_def)
  then show ?case
    using split_words_plain [of x "[]" "[]"] by (simp add: py_split_def)
next
  case (3 x y ys)
  then have x: "x \<noteq> []" "\<forall>c \<in> set x. \<not> isspace c" by (simp_all add: plain_word_def)
  from 3 have ih: "py_split (join [32] (y # ys)) = y # ys" by simp
  have "py_split (join [32] (x # y # ys)) = split_words x (32 # join [32] (y # ys))"
    using split_words_plain [OF x(2), of "[]" "32 # join [32] (y # ys)"]
    by (simp add: py_split_def)
  also have "\<dots> = x # py_split (join [32] (y # ys))"
    using x(1) isspace_blank by (simp add: py_split_def)
  finally show ?case by (simp add: ih)
qed

lemma plain_weights_agree:
  "\<forall>w \<in> set (content_lemmas lower toks). plain_word w \<Longrightarrow>
   phrase_weight lower k toks = retained_weight lower k toks"
  by (simp add: phrase_weight_def retained_weight_def normalized_phrase_def py_split_join)

text \<open>
  Two spans on which the number of words of the phrase and the number of retained lemmas
  differ: one token whose lemma is \<open>ice cream\<close>, and two tokens whose lemmas are empty.
\<close>

definition tok_ice_cream :: token where
  "tok_ice_cream = \<lparr>tok_text = str ''gelato'', tok_lemma = str ''ice cream'',
     tok_pos = str ''NOUN'', tok_morph = [], is_stop = False, is_alpha = True\<rparr>"

definition tok_no_lemma :: token where
  "tok_no_lemma = \<lparr>tok_text = str ''hmm'', tok_lemma = [],
     tok_pos = str ''NOUN'', tok_morph = [], is_stop = False, is_alpha = True\<rparr>"

definition doc_ice_cream :: doc where
  "doc_ice_cream = \<lparr>tokens = [tok_ice_cream], noun_chunks = [[tok_ice_cream]]\<rparr>"

definition doc_no_lemma :: doc where
  "doc_no_lemma = \<lparr>tokens = [tok_no_lemma, tok_no_lemma],
     noun_chunks = [[tok_no_lemma, tok_no_lemma]]\<rparr>"

text \<open>
  C9, as stated, fails: a span that retains the single lemma \<open>ice cream\<close> is counted, and
  a span that retains two empty lemmas is not.
\<close>

theorem noun_phrase_counting_counterexample:
  "content_lemmas ascii_lower [tok_ice_cream] = [str ''ice cream'']
   \<and> counter (get_noun_phrases ascii_lower [doc_ice_cream]) = [(str ''ice cream'', 1)]
   \<and> content_lemmas ascii_lower [tok_no_lemma, tok_no_lemma] = [[], []]
   \<and> counter (get_noun_phrases ascii_lower [doc_no_lemma]) = []"
  by (simp add: content_lemmas_def get_noun_phrases_def new_FrequencyDist_def phrase_step_def
      py_split_def isspace_def counter_inc_def counter_get_def doc_ice_cream_def
      doc_no_lemma_def tok_ice_cream_def tok_no_lemma_def ascii_lower_def str_def)

text \<open>
  C9, amended. For every span, the aggregator increments by one the count of the normalized
  phrase, the space-joined lowercased lemmas of the span's alphabetic non-stop tokens in
  span order, exactly when that phrase, split at whitespace, has 2 or more words, and leaves
  the table unchanged otherwise; the final count of a key is the number of spans, over all
  chunks, whose normalized phrase is that key and has 2 or more words. Whenever every
  retained lemma is a plain word, the words of the phrase are the retained lemmas, so that
  the phrase is counted exactly when 2 or more lemmas are retained.
\<close>

theorem noun_phrase_counting:
  "phrase_step lower np toks =
     (if 2 \<le> length (py_split (normalized_phrase lower toks))
      then counter_inc (normalized_phrase lower toks) np else np)
   \<and> counter_get (counter (get_noun_phrases lower docs)) k =
       sum_list (map (phrase_weight lower k) (concat (map noun_chunks docs)))
   \<and> ((\<forall>w \<in> set (content_lemmas lower toks). plain_word w) \<longrightarrow>
        py_split (normalized_phrase lower toks) = content_lemmas lower toks
        \<and> phrase_step lower np toks =
            (if 2 \<le> length (content_lemmas lower toks)
             then counter_inc (normalized_phrase lower toks) np else np))
   \<and> ((\<forall>sp \<in> set (concat (map noun_chunks docs)).
          \<forall>w \<in> set (content_lemmas lower sp). plain_word w) \<longrightarrow>
        counter_get (counter (get_noun_phrases lower docs)) k =
          sum_list (map (retained_weight lower k) (concat (map noun_chunks docs))))"
proof (intro conjI impI)
  show "phrase_step lower np toks =
     (if 2 \<le> length (py_split (normalized_phrase lower toks))
      then counter_inc (normalized_phrase lower toks) np else np)"
    by (rule phrase_step_eq)
  show count: "counter_get (counter (get_noun_phrases lower docs)) k =
       sum_list (map (phrase_weight lower k) (concat (map noun_chunks docs)))"
    by (simp add: get_noun_phrases_def counter_new phrase_fold_docs counter_get_Nil)
  {
    assume "\<forall>w \<in> set (content_lemmas lower toks). plain_word w"
    then show words: "py_split (normalized_phrase lower toks) = content_lemmas lower toks"
      by (simp add: normalized_phrase_def py_split_join)
    show "phrase_step lower np toks =
            (if 2 \<le> length (content_lemmas lower toks)
             then counter_inc (normalized_phrase lower toks) np else np)"
      by (simp only: phrase_step_eq words)
  }
  assume "\<forall>sp \<in> set (concat (map noun_chunks docs)).
            \<forall>w \<in> set (content_lemmas lower sp). plain_word w"
  then have "map (phrase_weight lower k) (concat (map noun_chunks docs)) =
             map (retained_weight lower k) (concat (map noun_chunks docs))"
    by (intro map_cong refl plain_weights_agree) blast
  with count show "counter_get (counter (get_noun_phrases lower docs)) k =
          sum_list (map (retained_weight lower k) (concat (map noun_chunks docs)))"
    by simp
qed

theorem noun_phrase_counting_witness:
  "py_split (normalized_phrase ascii_lower [tok_the, tok_lovely, tok_gardens]) =
     [str ''lovely'', str ''garden'']
   \<and> counter_get (counter (get_noun_phrases ascii_lower [doc_a, doc_b, doc_a]))
       (str ''lovely garden'') = 2
   \<and> counter (get_noun_phrases ascii_lower [doc_a, doc_b, doc_a]) = [(str ''lovely garden'', 2)]"
proof -
  have cl: "content_lemmas ascii_lower [tok_the, tok_lovely, tok_gardens] =
            [str ''lovely'', str ''garden'']"
    by (simp add: content_lemmas_def tok_the_def tok_lovely_def tok_gardens_def ascii_lower_def
        str_def)
  have cg: "content_lemmas ascii_lower [tok_gardens] = [str ''garden'']"
    by (simp add: content_lemmas_def tok_gardens_def ascii_lower_def str_def)
  have pw: "\<forall>w \<in> set (content_lemmas ascii_lower [tok_the, tok_lovely, tok_gardens]). plain_word w"
    by (simp add: cl plain_word_def isspace_def str_def)
  have spans: "concat (map noun_chunks [doc_a, doc_b, doc_a]) =
       [[tok_the, tok_lovely, tok_gardens], [tok_gardens], [tok_the, tok_lovely, tok_gardens]]"
    by (simp add: doc_a_def doc_b_def)
  have pws: "\<forall>sp \<in> set (concat (map noun_chunks [doc_a, doc_b, doc_a])).
               \<forall>w \<in> set (content_lemmas ascii_lower sp). plain_word w"
    unfolding spans by (simp add: cl cg plain_word_def isspace_def str_def)
  have np: "normalized_phrase ascii_lower [tok_the, tok_lovely, tok_gardens] = str ''lovely garden''"
    by (simp add: normalized_phrase_def cl str_def)
  have rw: "sum_list (map (retained_weight ascii_lower (str ''lovely garden''))
              (concat (map noun_chunks [doc_a, doc_b, doc_a]))) = 2"
    unfolding spans by (simp add: retained_weight_def cl cg np)
  have t: "counter (get_noun_phrases ascii_lower [doc_a, doc_b, doc_a]) = [(str ''lovely garden'', 2)]"
    by (simp add: get_noun_phrases_def new_FrequencyDist_def phrase_step_def py_split_def
        isspace_def counter_inc_def counter_get_def doc_a_def doc_b_def tok_the_def
        tok_lovely_def tok_gardens_def ascii_lower_def str_def)
  note inst = noun_phrase_counting [where lower = ascii_lower
      and toks = "[tok_the, tok_lovely, tok_gardens]"
      and docs = "[doc_a, doc_b, doc_a]" and k = "str ''lovely garden''"]
  from inst pw have "py_split (normalized_phrase ascii_lower [tok_the, tok_lovely, tok_gardens]) =
     content_lemmas ascii_lower [tok_the, tok_lovely, tok_gardens]"
    by blast
  moreover from inst pws have "counter_get (counter (get_noun_phrases ascii_lower [doc_a, doc_b, doc_a]))
       (str ''lovely garden'') =
       sum_list (map (retained_weight ascii_lower (str ''lovely garden''))
              (concat (map noun_chunks [doc_a, doc_b, doc_a])))"
    by blast
  ultimately show ?thesis using cl rw t by simp
qed

subsection \<open>The aggregators build Count Tables\<close>

lemma aggregated_tables_are_count_tables:
  "count_table (verb_table lower pp ds)"
  "count_table (noun_table lower pp ds)"
  "count_table (adjective_table lower pp ds)"
  unfolding tables_as_buckets by (rule aggregate_count_table)+

lemma count_table_phrase_step: "count_table np \<Longrightarrow> count_table (phrase_step lower np toks)"
  by (simp add: phrase_step_eq count_table_inc)

lemma count_table_phrase_fold:
  "count_table np \<Longrightarrow> count_table (foldl (phrase_step lower) np spans)"
  by (induction spans arbitrary: np) (simp_all add: count_table_phrase_step)

lemma phrase_table_is_count_table: "count_table (counter (get_noun_phrases lower docs))"
proof -
  have "count_table np \<Longrightarrow>
        count_table (foldl (\<lambda>np d. foldl (phrase_step lower) np (noun_chunks d)) np ds)" for np ds
    by (induction ds arbitrary: np) (simp_all add: count_table_phrase_fold)
  from this [OF count_table_Nil] show ?thesis
    by (simp add: get_noun_phrases_def counter_new)
qed

end
